theory Spec2Isabelle
  imports Complex_Main "HOL-Library.Log_Nat"
begin

section \<open>Python numbers\<close>

subsection \<open>Binary64 rounding\<close>

text \<open>
  A finite Python \<open>float\<close> is an IEEE binary64 value; it is modelled by the rational
  number it denotes. Every float operation of the script (\<open>+\<close>, \<open>-\<close>, \<open>*\<close>, \<open>/\<close>)
  returns the exact result rounded to the nearest binary64 value, ties to the even
  significand (\<open>fl\<close>). \<open>bexp x\<close> is the binary exponent of \<open>x\<close>, that is
  \<open>2 powi bexp x \<le> \<bar>x\<bar> < 2 powi (bexp x + 1)\<close>; the spacing of the binary64 values
  around \<open>x\<close> is \<open>2 powi (bexp x - 52)\<close> and never less than \<open>2 powi (- 1074)\<close>
  (gradual underflow). A rounded result of magnitude \<open>2 ^ 1024\<close> or more stands for
  an infinity (\<open>overflowed\<close>); only \<open>math.floor\<close> in the status client can meet one,
  the renderer works on percentages, colour channels and pixel counts.
\<close>

definition bexp :: "rat \<Rightarrow> int" where
  "bexp x = (let (a, b) = quotient_of \<bar>x\<bar>; e = bitlen a - bitlen b
             in if 2 powi e \<le> \<bar>x\<bar> then e else e - 1)"

definition round_half_even :: "rat \<Rightarrow> int" where
  "round_half_even x = (let f = \<lfloor>x\<rfloor>; d = x - of_int f
     in if d < 1 / 2 then f else if 1 / 2 < d then f + 1
        else if even f then f else f + 1)"

definition ulp :: "rat \<Rightarrow> rat" where
  "ulp x = 2 powi (max (bexp x) (- 1022) - 52)"

definition fl :: "rat \<Rightarrow> rat" where
  "fl x = of_int (round_half_even (x / ulp x)) * ulp x"

definition overflowed :: "rat \<Rightarrow> bool" where
  "overflowed x \<longleftrightarrow> 2 ^ 1024 \<le> \<bar>x\<bar>"

subsection \<open>Integers and floats\<close>

text \<open>
  Python's \<open>int\<close> is unbounded, its \<open>float\<close> is binary64. An operator applied to two
  ints is exact (except \<open>/\<close>, which gives the correctly rounded float); applied to an
  int and a float it first converts the int.
\<close>

datatype pynum = PInt int | PFloat rat

datatype py_error = ZeroDivisionError | OverflowError

fun to_float :: "pynum \<Rightarrow> rat" where
  "to_float (PInt i) = fl (of_int i)"
| "to_float (PFloat x) = x"

fun py_add :: "pynum \<Rightarrow> pynum \<Rightarrow> pynum" where
  "py_add (PInt a) (PInt b) = PInt (a + b)"
| "py_add a b = PFloat (fl (to_float a + to_float b))"

fun py_sub :: "pynum \<Rightarrow> pynum \<Rightarrow> pynum" where
  "py_sub (PInt a) (PInt b) = PInt (a - b)"
| "py_sub a b = PFloat (fl (to_float a - to_float b))"

fun py_mul :: "pynum \<Rightarrow> pynum \<Rightarrow> pynum" where
  "py_mul (PInt a) (PInt b) = PInt (a * b)"
| "py_mul a b = PFloat (fl (to_float a * to_float b))"

text \<open>\<open>a / b\<close> for a divisor that is not zero (the literals \<open>2\<close>, \<open>100\<close> and \<open>255\<close>).\<close>

fun quotient :: "pynum \<Rightarrow> pynum \<Rightarrow> pynum" where
  "quotient (PInt a) (PInt b) = PFloat (fl (of_int a / of_int b))"
| "quotient a b = PFloat (fl (to_float a / to_float b))"

text \<open>\<open>a / b\<close> for two floats: a zero divisor raises.\<close>

definition float_truediv :: "rat \<Rightarrow> rat \<Rightarrow> py_error + rat" where
  "float_truediv a b = (if b = 0 then Inl ZeroDivisionError else Inr (fl (a / b)))"

text \<open>\<open>int(x)\<close> truncates towards zero; \<open>round(x)\<close> of a float rounds half to even and
  returns an int; \<open>math.floor\<close> returns an int and raises on an infinity.\<close>

definition py_trunc :: "rat \<Rightarrow> int" where
  "py_trunc x = (if 0 \<le> x then \<lfloor>x\<rfloor> else \<lceil>x\<rceil>)"

fun py_int :: "pynum \<Rightarrow> int" where
  "py_int (PInt i) = i"
| "py_int (PFloat x) = py_trunc x"

fun py_round :: "pynum \<Rightarrow> int" where
  "py_round (PInt i) = i"
| "py_round (PFloat x) = round_half_even x"

definition math_floor :: "rat \<Rightarrow> py_error + int" where
  "math_floor x = (if overflowed x then Inl OverflowError else Inr \<lfloor>x\<rfloor>)"

text \<open>\<open>math.modf(x)\<close>: the fractional and the integer part, both with the sign of \<open>x\<close>,
  both exact.\<close>

definition modf :: "rat \<Rightarrow> rat \<times> rat" where
  "modf x = (x - of_int (py_trunc x), of_int (py_trunc x))"

text \<open>The truth value of an optional number in \<open>if percent_of_c1:\<close>: \<open>None\<close>, \<open>0\<close> and
  \<open>0.0\<close> are false.\<close>

fun truthy :: "pynum option \<Rightarrow> bool" where
  "truthy None = False"
| "truthy (Some (PInt i)) = (i \<noteq> 0)"
| "truthy (Some (PFloat x)) = (x \<noteq> 0)"

text \<open>\<open>range(k)\<close> and \<open>range(k, -1, -1)\<close>.\<close>

definition py_range :: "int \<Rightarrow> int list" where
  "py_range k = map int [0..<nat k]"

definition range_down :: "int \<Rightarrow> int list" where
  "range_down k = rev (py_range (k + 1))"

section \<open>Configuration\<close>

text \<open>The module constants that the functions below read. The pins, the frequency and
  the DMA channel only reach the driver's constructor.\<close>

record config =
  LED_COUNT :: nat
  LED_BRIGHTNESS :: int
  REVERSE :: bool

definition script_config :: config where
  "script_config = \<lparr>LED_COUNT = 10, LED_BRIGHTNESS = 100, REVERSE = True\<rparr>"

type_synonym color = "int \<times> int \<times> int"

definition HEATING_BASE_COLOR :: color where "HEATING_BASE_COLOR = (0, 0, 255)"
definition HEATING_PROGRESS_COLOR :: color where "HEATING_PROGRESS_COLOR = (255, 0, 0)"
definition PRINT_BASE_COLOR :: color where "PRINT_BASE_COLOR = (0, 0, 0)"
definition PRINT_PROGRESS_COLOR :: color where "PRINT_PROGRESS_COLOR = (0, 255, 0)"
definition STANDBY_COLOR :: color where "STANDBY_COLOR = (255, 0, 255)"
definition PAUSED_COLOR :: color where "PAUSED_COLOR = (0, 255, 0)"
definition ERROR_COLOR :: color where "ERROR_COLOR = (255, 0, 0)"

section \<open>Status client\<close>

text \<open>The part of the heater's JSON object that \<open>heating_percent\<close> reads, as the two
  floats the status API reports.\<close>

record reading =
  temperature :: rat
  target :: rat

definition heating_percent :: "reading \<Rightarrow> py_error + int" where
  "heating_percent temp =
     (if target temp = 0 then Inr 0
      else case float_truediv (temperature temp) (target temp) of
             Inl e \<Rightarrow> Inl e
           | Inr q \<Rightarrow> math_floor (fl (q * 100)))"

definition printing_percent :: "rat \<Rightarrow> py_error + int" where
  "printing_percent progress_field = math_floor (fl (progress_field * 100))"

section \<open>Color mixer\<close>

definition average :: "pynum \<Rightarrow> pynum \<Rightarrow> int" where
  "average num_a num_b = py_round (quotient (py_add num_a num_b) (PInt 2))"

definition mix_color :: "color \<Rightarrow> color \<Rightarrow> pynum option \<Rightarrow> color" where
  "mix_color colour1 colour2 percent_of_c1 =
     (case (colour1, colour2) of ((r1, g1, b1), (r2, g2, b2)) \<Rightarrow>
        let (c1, c2) =
              (if truthy percent_of_c1
               then let w1 = the percent_of_c1;
                        c1 = map (\<lambda>x. py_mul (PInt x) w1) [r1, g1, b1];
                        percent_of_c2 = py_sub (PInt 1) w1;
                        c2 = map (\<lambda>x. py_mul (PInt x) percent_of_c2) [r2, g2, b2]
                    in (c1, c2)
               else (map PInt [r1, g1, b1], map PInt [r2, g2, b2]));
            col_r = average (c1 ! 0) (c2 ! 0);
            col_g = average (c1 ! 1) (c2 ! 1);
            col_b = average (c1 ! 2) (c2 ! 2)
        in (py_int (PInt col_r), py_int (PInt col_g), py_int (PInt col_b)))"

definition color_brightness_correction :: "config \<Rightarrow> color \<Rightarrow> color" where
  "color_brightness_correction cfg color =
     (case color of (r, g, b) \<Rightarrow>
        let brightness_correction = quotient (PInt (LED_BRIGHTNESS cfg)) (PInt 255)
        in (py_int (py_mul (PInt r) brightness_correction),
            py_int (py_mul (PInt g) brightness_correction),
            py_int (py_mul (PInt b) brightness_correction)))"

section \<open>LED driver\<close>

text \<open>
  The script drives the strip through four methods of the driver object and through
  \<open>time.sleep\<close>; a function of the renderer is modelled by the sequence of these calls
  that it makes, in order, given the pixel count that \<open>strip.numPixels()\<close> returns.
  \<open>print\<close> writes to the standard output only and is left out.
\<close>

datatype call =
    SetBrightness int
  | SetPixelColorRGB int int int int
  | Show
  | Sleep rat

definition set_pixel :: "int \<Rightarrow> color \<Rightarrow> call" where
  "set_pixel pixel color = (case color of (r, g, b) \<Rightarrow> SetPixelColorRGB pixel r g b)"

text \<open>
  The driver itself is an external library. Its state is the one the specification
  describes: a fixed-size sequence of colours and a global brightness, made visible by
  \<open>show\<close>. \<open>frames\<close> records what each \<open>show\<close> has flushed, oldest first. A pixel
  index outside \<open>[0, numPixels - 1]\<close> is an access out of range and makes the call
  fail (\<open>None\<close>).
\<close>

record strip =
  pixels :: "color list"
  brightness :: int
  frames :: "(color list \<times> int) list"

fun driver_call :: "call \<Rightarrow> strip \<Rightarrow> strip option" where
  "driver_call (SetBrightness v) s = Some (s\<lparr>brightness := v\<rparr>)"
| "driver_call (SetPixelColorRGB n r g b) s =
     (if 0 \<le> n \<and> n < int (length (pixels s))
      then Some (s\<lparr>pixels := (pixels s)[nat n := (r, g, b)]\<rparr>)
      else None)"
| "driver_call Show s = Some (s\<lparr>frames := frames s @ [(pixels s, brightness s)]\<rparr>)"
| "driver_call (Sleep d) s = Some s"

fun driver_calls :: "call list \<Rightarrow> strip \<Rightarrow> strip option" where
  "driver_calls [] s = Some s"
| "driver_calls (c # cs) s =
     (case driver_call c s of None \<Rightarrow> None | Some s' \<Rightarrow> driver_calls cs s')"

text \<open>The pixel indices that a sequence of calls writes, in order.\<close>

fun written :: "call list \<Rightarrow> int list" where
  "written [] = []"
| "written (SetPixelColorRGB n r g b # cs) = n # written cs"
| "written (c # cs) = written cs"

section \<open>Strip renderer\<close>

subsection \<open>progress\<close>

text \<open>\<open>upper_bar = (percent / 100) * num_pixels\<close>, for the int \<open>percent\<close> that
  \<open>heating_percent\<close> and \<open>printing_percent\<close> return.\<close>

definition upper_bar :: "nat \<Rightarrow> int \<Rightarrow> rat" where
  "upper_bar count percent =
     to_float (py_mul (quotient (PInt percent) (PInt 100)) (PInt (int count)))"

definition upper_remainder :: "nat \<Rightarrow> int \<Rightarrow> rat" where
  "upper_remainder count percent = fst (modf (upper_bar count percent))"

definition upper_whole :: "nat \<Rightarrow> int \<Rightarrow> rat" where
  "upper_whole count percent = snd (modf (upper_bar count percent))"

text \<open>The first loop: \<open>for i in range(int(upper_whole))\<close>.\<close>

definition progress_pixels :: "config \<Rightarrow> nat \<Rightarrow> int \<Rightarrow> color \<Rightarrow> call list" where
  "progress_pixels cfg count percent progress_color =
     map (\<lambda>i. set_pixel (if REVERSE cfg then (int count - 1) - i else i)
                 (color_brightness_correction cfg progress_color))
         (py_range (py_int (PFloat (upper_whole count percent))))"

text \<open>The boundary pixel: \<open>if upper_remainder > 0.0\<close>.\<close>

definition tween_pixel :: "config \<Rightarrow> nat \<Rightarrow> int \<Rightarrow> color \<Rightarrow> color \<Rightarrow> call list" where
  "tween_pixel cfg count percent base_color progress_color =
     (if 0 < upper_remainder count percent
      then let tween_color =
                 mix_color progress_color base_color
                   (Some (PFloat (upper_remainder count percent)));
               pixel = (if REVERSE cfg
                        then (int count - py_int (PFloat (upper_whole count percent))) - 1
                        else py_int (PFloat (upper_whole count percent)))
           in [set_pixel pixel (color_brightness_correction cfg tween_color)]
      else [])"

text \<open>\<open>pixels_remaining\<close> when the last loop starts: the count, less one for every
  iteration of the first loop and one for the boundary pixel.\<close>

definition pixels_remaining :: "nat \<Rightarrow> int \<Rightarrow> int" where
  "pixels_remaining count percent =
     int count
       - int (length (py_range (py_int (PFloat (upper_whole count percent)))))
       - (if 0 < upper_remainder count percent then 1 else 0)"

definition base_pixels :: "config \<Rightarrow> nat \<Rightarrow> int \<Rightarrow> color \<Rightarrow> call list" where
  "base_pixels cfg count percent base_color =
     (let remaining = pixels_remaining count percent
      in map (\<lambda>i. set_pixel (if REVERSE cfg then (remaining - 1) - i
                               else (int count - remaining) + i)
                     (color_brightness_correction cfg base_color))
             (py_range remaining))"

definition progress :: "config \<Rightarrow> nat \<Rightarrow> int \<Rightarrow> color \<Rightarrow> color \<Rightarrow> call list" where
  "progress cfg count percent base_color progress_color =
     SetBrightness (LED_BRIGHTNESS cfg)
       # progress_pixels cfg count percent progress_color
       @ tween_pixel cfg count percent base_color progress_color
       @ base_pixels cfg count percent base_color
       @ [Show]"

text \<open>The pixels that a call of \<open>progress\<close> does not paint with the base colour.\<close>

definition lit_pixels :: "nat \<Rightarrow> int \<Rightarrow> int" where
  "lit_pixels count percent = int count - pixels_remaining count percent"

subsection \<open>fade, chase and bounce\<close>

definition brightness_step :: "rat \<Rightarrow> int \<Rightarrow> call list" where
  "brightness_step speed i = [SetBrightness i, Show, Sleep speed]"

definition fade :: "config \<Rightarrow> nat \<Rightarrow> color \<Rightarrow> string \<Rightarrow> call list" where
  "fade cfg count color speed =
     (let speed = (if speed = ''slow'' then fl (5 / 100) else fl (5 / 1000))
      in map (\<lambda>pixel. set_pixel pixel color) (py_range (int count))
         @ [Show]
         @ concat (map (brightness_step speed) (py_range (LED_BRIGHTNESS cfg)))
         @ [Sleep (fl (speed * 5))]
         @ concat (map (brightness_step speed) (range_down (LED_BRIGHTNESS cfg))))"

text \<open>The positions that the outer loop of \<open>chase\<close> visits, and its inner loop at one
  position \<open>i\<close>.\<close>

definition chase_positions :: "nat \<Rightarrow> bool \<Rightarrow> int list" where
  "chase_positions count reverse =
     (if reverse then rev (py_range (int count + 1)) else py_range (int count + 1))"

definition chase_at :: "nat \<Rightarrow> color \<Rightarrow> int \<Rightarrow> call list" where
  "chase_at count color i =
     concat (map (\<lambda>pixel. [if i = pixel then set_pixel pixel color
                             else SetPixelColorRGB pixel 0 0 0,
                             Show, Sleep (fl (1 / 100))])
                 (py_range (int count)))"

definition chase :: "config \<Rightarrow> nat \<Rightarrow> color \<Rightarrow> bool \<Rightarrow> call list" where
  "chase cfg count color reverse =
     SetBrightness (LED_BRIGHTNESS cfg)
       # concat (map (chase_at count color) (chase_positions count reverse))"

definition bounce :: "config \<Rightarrow> nat \<Rightarrow> color \<Rightarrow> call list" where
  "bounce cfg count color = chase cfg count color False @ chase cfg count color True"

section \<open>Main loop\<close>

text \<open>
  The loop of \<open>run\<close> never ends by itself; what it does up to an interrupt is decided
  by the answers of the status API. A run is described by the answers it got: for each
  turn of the outer loop, the turns of the \<open>printing\<close> loop with the percentages polled
  in each of its three phases, and how often the printer was then found in \<open>standby\<close>,
  \<open>paused\<close> and \<open>error\<close>. A phase renders the percentages polled before the first
  one that reaches its limit (99 for the heaters, 100 for the print).
\<close>

record printing_turn =
  bed_polls :: "int list"
  extruder_polls :: "int list"
  print_polls :: "int list"

record turn =
  printing_turns :: "printing_turn list"
  standby_polls :: nat
  paused_polls :: nat
  error_polls :: nat

text \<open>\<open>while percent < limit: progress(...); time.sleep(2); percent = ...\<close>\<close>

definition progress_while ::
    "config \<Rightarrow> int \<Rightarrow> color \<Rightarrow> color \<Rightarrow> int list \<Rightarrow> call list" where
  "progress_while cfg limit base_color progress_color polls =
     concat (map (\<lambda>percent. progress cfg (LED_COUNT cfg) percent base_color progress_color
                              @ [Sleep 2])
                 (takeWhile (\<lambda>percent. percent < limit) polls))"

definition printing_calls :: "config \<Rightarrow> printing_turn \<Rightarrow> call list" where
  "printing_calls cfg t =
     progress_while cfg 99 HEATING_BASE_COLOR HEATING_PROGRESS_COLOR (bed_polls t)
     @ progress_while cfg 99 HEATING_BASE_COLOR HEATING_PROGRESS_COLOR (extruder_polls t)
     @ progress_while cfg 100 PRINT_BASE_COLOR PRINT_PROGRESS_COLOR (print_polls t)"

definition turn_calls :: "config \<Rightarrow> turn \<Rightarrow> call list" where
  "turn_calls cfg t =
     concat (map (printing_calls cfg) (printing_turns t))
     @ concat (replicate (standby_polls t) (fade cfg (LED_COUNT cfg) STANDBY_COLOR ''slow''))
     @ concat (replicate (paused_polls t) (bounce cfg (LED_COUNT cfg) PAUSED_COLOR))
     @ concat (replicate (error_polls t) (fade cfg (LED_COUNT cfg) ERROR_COLOR ''fast''))
     @ [Sleep 2]"

definition loop_calls :: "config \<Rightarrow> turn list \<Rightarrow> call list" where
  "loop_calls cfg turns = concat (map (turn_calls cfg) turns)"

text \<open>The handler of \<open>KeyboardInterrupt\<close>.\<close>

definition interrupt_calls :: "nat \<Rightarrow> call list" where
  "interrupt_calls count =
     map (\<lambda>i. SetPixelColorRGB i 0 0 0) (py_range (int count)) @ [Show]"

text \<open>The strip after \<open>Adafruit_NeoPixel(LED_COUNT, ...)\<close> and \<open>begin()\<close>, and a run
  that is interrupted after \<open>k\<close> calls of the loop.\<close>

definition new_strip :: "config \<Rightarrow> strip" where
  "new_strip cfg =
     \<lparr>pixels = replicate (LED_COUNT cfg) (0, 0, 0),
      brightness = LED_BRIGHTNESS cfg, frames = []\<rparr>"

definition run :: "config \<Rightarrow> turn list \<Rightarrow> nat \<Rightarrow> call list" where
  "run cfg turns k = take k (loop_calls cfg turns) @ interrupt_calls (LED_COUNT cfg)"

section \<open>Properties of the rounding\<close>

lemma pow2_pos: "0 < (2::rat) powi e"
  by (simp add: zero_less_power_int)

lemma pow2_int: "0 \<le> e \<Longrightarrow> (2::rat) powi e = of_int (2 ^ nat e)"
  by (simp add: power_int_nonneg_exp)

lemma pow2_mono: "a \<le> b \<Longrightarrow> (2::rat) powi a \<le> 2 powi b"
  by (rule power_int_increasing) simp_all

lemma pow2_strict_mono: "a < b \<Longrightarrow> (2::rat) powi a < 2 powi b"
  by (rule power_int_strict_increasing) simp_all

lemma pow2_le_iff: "(2::rat) powi a \<le> 2 powi b \<longleftrightarrow> a \<le> b"
  using pow2_mono pow2_strict_mono by (metis linorder_not_less)

lemma pow2_less_iff: "(2::rat) powi a < 2 powi b \<longleftrightarrow> a < b"
  using pow2_mono pow2_strict_mono by (metis linorder_not_less)

lemma pow2_add: "(2::rat) powi (a + b) = 2 powi a * 2 powi b"
  by (simp add: power_int_add)

lemma pow2_diff: "(2::rat) powi (a - b) = 2 powi a / 2 powi b"
  by (simp add: power_int_diff)

lemma bitlen_rat_bounds:
  assumes "0 < a"
  shows "(2::rat) powi (bitlen a - 1) \<le> of_int a" "of_int a < (2::rat) powi (bitlen a)"
proof -
  from bitlen_bounds[OF assms] have l: "2 ^ nat (bitlen a - 1) \<le> a" and u: "a < 2 ^ nat (bitlen a)"
    by simp_all
  have b1: "1 \<le> bitlen a" using assms by (simp add: bitlen_alt_def)
  have "(2::rat) powi (bitlen a - 1) = of_int (2 ^ nat (bitlen a - 1))"
    using b1 by (simp add: pow2_int)
  also have "\<dots> \<le> of_int a" using l by (simp only: of_int_le_iff)
  finally show "(2::rat) powi (bitlen a - 1) \<le> of_int a" .
  have "(of_int a :: rat) < of_int (2 ^ nat (bitlen a))" using u by (simp only: of_int_less_iff)
  also have "\<dots> = 2 powi (bitlen a)" using b1 by (simp add: pow2_int)
  finally show "of_int a < (2::rat) powi (bitlen a)" .
qed

lemma bexp_bounds:
  assumes "x \<noteq> 0"
  shows "2 powi bexp x \<le> \<bar>x\<bar>" "\<bar>x\<bar> < 2 powi (bexp x + 1)"
proof -
  obtain a b where q: "quotient_of \<bar>x\<bar> = (a, b)" by (cases "quotient_of \<bar>x\<bar>")
  have bpos: "0 < b" using q by (rule quotient_of_denom_pos)
  have xeq: "\<bar>x\<bar> = of_int a / of_int b" using q by (rule quotient_of_div)
  have apos: "0 < a"
  proof -
    have "0 < \<bar>x\<bar>" using assms by simp
    then have "0 < (of_int a :: rat) / of_int b" using xeq by simp
    then show ?thesis using bpos by (simp add: zero_less_divide_iff)
  qed
  let ?e = "bitlen a - bitlen b"
  have bq: "(0::rat) < of_int b" using bpos by simp
  have up: "\<bar>x\<bar> < 2 powi (?e + 1)"
  proof -
    have "(of_int a :: rat) < 2 powi (bitlen a)" using bitlen_rat_bounds(2)[OF apos] .
    also have "\<dots> = 2 powi (?e + 1) * 2 powi (bitlen b - 1)"
      by (simp flip: pow2_add)
    also have "\<dots> \<le> 2 powi (?e + 1) * of_int b"
      using bitlen_rat_bounds(1)[OF bpos] pow2_pos[of "?e + 1"]
      by (intro mult_left_mono) simp_all
    finally show ?thesis using bq by (simp add: xeq pos_divide_less_eq)
  qed
  have lo: "2 powi (?e - 1) \<le> \<bar>x\<bar>"
  proof -
    have "2 powi (?e - 1) * (of_int b :: rat) \<le> 2 powi (?e - 1) * 2 powi (bitlen b)"
      using bitlen_rat_bounds(2)[OF bpos] pow2_pos[of "?e - 1"]
      by (intro mult_left_mono) simp_all
    also have "\<dots> = 2 powi (bitlen a - 1)" by (simp flip: pow2_add)
    also have "\<dots> \<le> of_int a" using bitlen_rat_bounds(1)[OF apos] .
    finally show ?thesis using bq by (simp add: xeq pos_le_divide_eq)
  qed
  have be: "bexp x = (if 2 powi ?e \<le> \<bar>x\<bar> then ?e else ?e - 1)"
    by (simp add: bexp_def q Let_def)
  show "2 powi bexp x \<le> \<bar>x\<bar>" using lo by (simp add: be)
  show "\<bar>x\<bar> < 2 powi (bexp x + 1)" using up by (auto simp add: be)
qed

lemma bexp_unique:
  assumes "2 powi e \<le> \<bar>x\<bar>" "\<bar>x\<bar> < 2 powi (e + 1)"
  shows "bexp x = e"
proof -
  have nz: "x \<noteq> 0" using less_le_trans[OF pow2_pos assms(1)] by auto
  have "2 powi bexp x < (2::rat) powi (e + 1)"
    using bexp_bounds(1)[OF nz] assms(2) by simp
  moreover have "(2::rat) powi e < 2 powi (bexp x + 1)"
    using bexp_bounds(2)[OF nz] assms(1) by simp
  ultimately show ?thesis by (simp add: pow2_less_iff)
qed

lemma bexp_mono:
  assumes "x \<noteq> 0" "\<bar>x\<bar> \<le> \<bar>y\<bar>"
  shows "bexp x \<le> bexp y"
proof -
  have ny: "y \<noteq> 0" using assms by auto
  have "2 powi bexp x < (2::rat) powi (bexp y + 1)"
    using bexp_bounds(1)[OF assms(1)] bexp_bounds(2)[OF ny] assms(2) by simp
  then show ?thesis by (simp add: pow2_less_iff)
qed

lemma rhe_of_int: "round_half_even (of_int k) = k"
  by (simp add: round_half_even_def)

lemma rhe_cases:
  "round_half_even x = \<lfloor>x\<rfloor> \<or> round_half_even x = \<lfloor>x\<rfloor> + 1"
  by (simp add: round_half_even_def Let_def)

lemma rhe_le_int: "x \<le> of_int k \<Longrightarrow> round_half_even x \<le> k"
proof -
  assume a: "x \<le> of_int k"
  show ?thesis
  proof (cases "x = of_int k")
    case True then show ?thesis by (simp add: rhe_of_int)
  next
    case False
    then have "x < of_int k" using a by simp
    then have "\<lfloor>x\<rfloor> < k" by (simp add: floor_less_iff)
    then show ?thesis using rhe_cases[of x] by auto
  qed
qed

lemma rhe_ge_int: "of_int k \<le> x \<Longrightarrow> k \<le> round_half_even x"
proof -
  assume "of_int k \<le> x"
  then have "k \<le> \<lfloor>x\<rfloor>" by (simp add: le_floor_iff)
  then show ?thesis using rhe_cases[of x] by auto
qed

lemma rhe_mono: "x \<le> y \<Longrightarrow> round_half_even x \<le> round_half_even y"
proof -
  assume a: "x \<le> y"
  have fm: "\<lfloor>x\<rfloor> \<le> \<lfloor>y\<rfloor>" using a by (rule floor_mono)
  show ?thesis
  proof (cases "\<lfloor>x\<rfloor> = \<lfloor>y\<rfloor>")
    case True
    then show ?thesis using a
      by (auto simp add: round_half_even_def Let_def)
  next
    case False
    then have "\<lfloor>x\<rfloor> + 1 \<le> \<lfloor>y\<rfloor>" using fm by simp
    then show ?thesis using rhe_cases[of x] rhe_cases[of y] by auto
  qed
qed


lemma ulp_pos: "0 < ulp x"
  by (simp add: ulp_def pow2_pos)

lemma fl_zero: "fl 0 = 0"
  by (simp add: fl_def round_half_even_def)

lemma fl_nonneg: "0 \<le> x \<Longrightarrow> 0 \<le> fl x"
proof -
  assume "0 \<le> x"
  then have "of_int 0 \<le> x / ulp x" using ulp_pos[of x] by simp
  then have "0 \<le> round_half_even (x / ulp x)" by (rule rhe_ge_int)
  then show ?thesis using ulp_pos[of x] by (simp add: fl_def)
qed

lemma fl_le_repr:
  assumes "x \<le> f" "f / ulp x = of_int m"
  shows "fl x \<le> f"
proof -
  have "x / ulp x \<le> of_int m"
    using assms ulp_pos[of x] by (simp add: divide_right_mono flip: assms(2))
  then have "round_half_even (x / ulp x) \<le> m" by (rule rhe_le_int)
  then have "(of_int (round_half_even (x / ulp x)) :: rat) \<le> of_int m" by simp
  then have "fl x \<le> of_int m * ulp x"
    unfolding fl_def using ulp_pos[of x] by (simp add: mult_right_mono)
  also have "\<dots> = f" using ulp_pos[of x] by (simp flip: assms(2))
  finally show ?thesis .
qed

lemma fl_ge_repr:
  assumes "f \<le> x" "f / ulp x = of_int m"
  shows "f \<le> fl x"
proof -
  have "of_int m \<le> x / ulp x"
    using assms ulp_pos[of x] by (simp add: divide_right_mono flip: assms(2))
  then have "m \<le> round_half_even (x / ulp x)" by (rule rhe_ge_int)
  then have "(of_int m :: rat) \<le> of_int (round_half_even (x / ulp x))" by simp
  then have "of_int m * ulp x \<le> fl x"
    unfolding fl_def using ulp_pos[of x] by (simp add: mult_right_mono)
  moreover have "of_int m * ulp x = f" using ulp_pos[of x] by (simp flip: assms(2))
  ultimately show ?thesis by simp
qed

lemma fl_exact:
  assumes "x / ulp x = of_int m"
  shows "fl x = x"
  using fl_le_repr[OF order_refl assms] fl_ge_repr[OF order_refl assms] by simp

lemma pow2_quot_int: "b \<le> a \<Longrightarrow> (2::rat) powi a / 2 powi b = of_int (2 ^ nat (a - b))"
  by (simp add: pow2_int flip: pow2_diff)

lemma fl_dyadic:
  assumes "\<bar>m\<bar> < 2 ^ 53" "- 1074 \<le> e"
  shows "fl (of_int m * 2 powi e) = of_int m * 2 powi e"
proof (cases "m = 0")
  case True then show ?thesis by (simp add: fl_zero)
next
  case False
  let ?x = "of_int m * (2::rat) powi e"
  have nz: "?x \<noteq> 0" using False pow2_pos[of e] by simp
  have "\<bar>?x\<bar> = of_int \<bar>m\<bar> * 2 powi e" using pow2_pos[of e] by (simp add: abs_mult)
  also have "\<dots> < of_int (2 ^ 53) * 2 powi e"
    using assms(1) pow2_pos[of e] by (intro mult_strict_right_mono) (simp_all only: of_int_less_iff)
  also have "\<dots> = 2 powi (53 + e)" by (simp add: pow2_add)
  finally have "2 powi bexp ?x < (2::rat) powi (53 + e)"
    using bexp_bounds(1)[OF nz] by simp
  then have be: "bexp ?x < 53 + e" by (simp add: pow2_less_iff)
  define j where "j = max (bexp ?x) (- 1022) - 52"
  have je: "j \<le> e" using be assms(2) by (simp add: j_def)
  have u: "ulp ?x = 2 powi j" by (simp add: ulp_def j_def)
  have "?x / ulp ?x = of_int m * (2 powi e / 2 powi j)" by (simp add: u)
  also have "\<dots> = of_int (m * 2 ^ nat (e - j))" using je by (simp add: pow2_quot_int)
  finally show ?thesis by (rule fl_exact)
qed

lemma fl_of_int: "\<bar>k\<bar> < 2 ^ 53 \<Longrightarrow> fl (of_int k) = of_int k"
  using fl_dyadic[of k 0] by simp

lemma fl_le_int:
  assumes "0 \<le> x" "x \<le> of_int k" "k < 2 ^ 53"
  shows "fl x \<le> of_int k"
proof (cases "x = 0")
  case True then show ?thesis using assms by (simp add: fl_zero)
next
  case False
  have "2 powi bexp x \<le> \<bar>x\<bar>" using bexp_bounds(1)[OF False] .
  also have "\<bar>x\<bar> \<le> of_int k" using assms by simp
  also have "(of_int k :: rat) < of_int (2 ^ 53)" using assms(3) by (simp only: of_int_less_iff)
  also have "\<dots> = 2 powi 53" by simp
  finally have "2 powi bexp x < (2::rat) powi 53" .
  then have be: "bexp x < 53" by (simp only: pow2_less_iff)
  define j where "j = max (bexp x) (- 1022) - 52"
  have j0: "j \<le> 0" using be by (simp add: j_def)
  have u: "ulp x = 2 powi j" by (simp add: ulp_def j_def)
  have "of_int k / ulp x = of_int k * (2 powi 0 / 2 powi j)" by (simp add: u)
  also have "\<dots> = of_int (k * 2 ^ nat (0 - j))" using j0 by (simp only: pow2_quot_int of_int_mult)
  finally show ?thesis using assms(2) by (rule fl_le_repr[rotated])
qed

lemma fl_mono:
  assumes "0 \<le> x" "x \<le> y"
  shows "fl x \<le> fl y"
proof (cases "x = 0")
  case True
  then show ?thesis using assms fl_nonneg[of y] by (simp add: fl_zero)
next
  case False
  have xp: "0 < x" and yp: "0 < y" using False assms by simp_all
  have ny: "y \<noteq> 0" using yp by simp
  define jx where "jx = max (bexp x) (- 1022) - 52"
  define jy where "jy = max (bexp y) (- 1022) - 52"
  have ux: "ulp x = 2 powi jx" and uy: "ulp y = 2 powi jy" by (simp_all add: ulp_def jx_def jy_def)
  have em: "bexp x \<le> bexp y" using bexp_mono[OF False] assms by simp
  then have jm: "jx \<le> jy" by (simp add: jx_def jy_def)
  show ?thesis
  proof (cases "jx = jy")
    case True
    then have uu: "ulp y = ulp x" by (simp add: ux uy)
    have "x / ulp x \<le> y / ulp x" using assms(2) ulp_pos[of x] by (simp add: divide_right_mono)
    then have "round_half_even (x / ulp x) \<le> round_half_even (y / ulp x)" by (rule rhe_mono)
    then have "(of_int (round_half_even (x / ulp x)) :: rat) \<le> of_int (round_half_even (y / ulp x))"
      by simp
    then show ?thesis unfolding fl_def uu using ulp_pos[of x] by (simp add: mult_right_mono)
  next
    case False
    then have lt: "jx < jy" using jm by simp
    then have ey: "- 1022 < bexp y" "bexp x < bexp y" "jy = bexp y - 52" "jx + 52 < bexp y"
      by (auto simp add: jx_def jy_def max_def split: if_splits)
    let ?f = "(2::rat) powi bexp y"
    have "?f / ulp y = of_int (2 ^ nat (bexp y - jy))"
      unfolding uy using ey by (intro pow2_quot_int) simp
    moreover have "?f \<le> y" using bexp_bounds(1)[OF ny] yp by simp
    ultimately have 1: "?f \<le> fl y" by (rule fl_ge_repr[rotated])
    have "?f / ulp x = of_int (2 ^ nat (bexp y - jx))"
      unfolding ux using ey by (intro pow2_quot_int) simp
    moreover have "x \<le> ?f"
    proof -
      have "x < 2 powi (bexp x + 1)" using bexp_bounds(2)[OF \<open>x \<noteq> 0\<close>] xp by simp
      also have "\<dots> \<le> ?f" using ey by (intro pow2_mono) simp
      finally show ?thesis by simp
    qed
    ultimately have 2: "fl x \<le> ?f" by (rule fl_le_repr[rotated])
    from 1 2 show ?thesis by simp
  qed
qed

lemma fl_eval:
  assumes "2 powi e \<le> \<bar>x\<bar>" "\<bar>x\<bar> < 2 powi (e + 1)" "- 1022 \<le> e"
  shows "fl x = of_int (round_half_even (x / 2 powi (e - 52))) * 2 powi (e - 52)"
proof -
  have "bexp x = e" using assms(1,2) by (rule bexp_unique)
  then have "ulp x = 2 powi (e - 52)" using assms(3) by (simp add: ulp_def)
  then show ?thesis by (simp add: fl_def)
qed

lemma rhe_eval:
  "round_half_even x = (if x - of_int \<lfloor>x\<rfloor> < 1 / 2 then \<lfloor>x\<rfloor>
     else if 1 / 2 < x - of_int \<lfloor>x\<rfloor> then \<lfloor>x\<rfloor> + 1
     else if even \<lfloor>x\<rfloor> then \<lfloor>x\<rfloor> else \<lfloor>x\<rfloor> + 1)"
  by (simp add: round_half_even_def Let_def)

lemma floor_rat_numeral_div:
  "\<lfloor>numeral a / numeral b :: rat\<rfloor> = numeral a div numeral b"
  using floor_divide_of_int_eq[of "numeral a" "numeral b", where ?'a = rat] by simp

lemmas fl_eval_simps = rhe_eval power_int_minus floor_rat_numeral_div

lemma fl_numeral: "numeral k < (2::int) ^ 53 \<Longrightarrow> fl (numeral k) = numeral k"
  using fl_of_int[of "numeral k"] by simp

lemma fl_one: "fl 1 = 1"
  using fl_of_int[of 1] by simp

lemma fl_two: "fl 2 = 2"
  using fl_of_int[of 2] by simp

lemma py_trunc_of_int: "py_trunc (of_int k) = k"
  by (simp add: py_trunc_def)

lemma fl_half_int: "\<bar>k\<bar> < 2 ^ 53 \<Longrightarrow> fl (of_int k / 2) = of_int k / 2"
  using fl_dyadic[of k "- 1"] by (simp add: power_int_minus)

section \<open>Properties of the color mixer\<close>

lemma fl_half: "fl (1 / 2) = 1 / 2"
  using fl_half_int[of 1] by simp

lemma channel_bound: "0 \<le> c \<Longrightarrow> c \<le> 255 \<Longrightarrow> \<bar>c\<bar> < (2::int) ^ 53"
  by simp

lemma average_ints:
  "\<bar>a + b\<bar> < 2 ^ 53 \<Longrightarrow> average (PInt a) (PInt b) = round_half_even (of_int (a + b) / 2)"
proof -
  assume a: "\<bar>a + b\<bar> < 2 ^ 53"
  have "average (PInt a) (PInt b) = round_half_even (fl (of_int (a + b) / 2))"
    by (simp add: average_def)
  then show ?thesis by (simp only: fl_half_int[OF a])
qed

lemma average_float_zero:
  "\<bar>a\<bar> < 2 ^ 53 \<Longrightarrow> average (PFloat (of_int a)) (PFloat 0) = round_half_even (of_int a / 2)"
proof -
  assume a: "\<bar>a\<bar> < 2 ^ 53"
  have "average (PFloat (of_int a)) (PFloat 0) = round_half_even (fl (of_int a / 2))"
    using a by (simp add: average_def fl_of_int fl_two)
  then show ?thesis by (simp only: fl_half_int[OF a])
qed

lemma scale_by_one:
  "\<bar>a\<bar> < 2 ^ 53 \<Longrightarrow> py_mul (PInt a) (PFloat 1) = PFloat (of_int a)"
  by (simp add: fl_of_int)

lemma scale_by_zero: "py_mul (PInt a) (PFloat 0) = PFloat 0"
  by (simp add: fl_zero)

lemma mix_color_weight_one:
  assumes "\<bar>r1\<bar> < 2 ^ 53" "\<bar>g1\<bar> < 2 ^ 53" "\<bar>b1\<bar> < 2 ^ 53"
  shows "mix_color (r1, g1, b1) (r2, g2, b2) (Some (PFloat 1)) =
           (round_half_even (of_int r1 / 2), round_half_even (of_int g1 / 2),
            round_half_even (of_int b1 / 2))"
proof -
  have c2: "py_sub (PInt 1) (PFloat 1) = PFloat 0" by (simp add: fl_one fl_zero)
  show ?thesis
    using assms
    by (simp add: mix_color_def c2 scale_by_one scale_by_zero average_float_zero Let_def
          del: py_mul.simps py_sub.simps)
qed

lemma mix_color_weight_one_int:
  assumes "\<bar>r1\<bar> < 2 ^ 53" "\<bar>g1\<bar> < 2 ^ 53" "\<bar>b1\<bar> < 2 ^ 53"
  shows "mix_color (r1, g1, b1) (r2, g2, b2) (Some (PInt 1)) =
           (round_half_even (of_int r1 / 2), round_half_even (of_int g1 / 2),
            round_half_even (of_int b1 / 2))"
  using assms average_ints[of r1 0] average_ints[of g1 0] average_ints[of b1 0]
  by (simp add: mix_color_def Let_def)

lemma weighted_red_channel:
  "average (py_mul (PInt 255) (PFloat 0)) (py_mul (PInt 0) (py_sub (PInt 1) (PFloat 0))) = 0"
  by (simp add: average_def fl_zero fl_one fl_two round_half_even_def)

lemma mix_color_unweighted:
  assumes "\<bar>r1 + r2\<bar> < 2 ^ 53" "\<bar>g1 + g2\<bar> < 2 ^ 53" "\<bar>b1 + b2\<bar> < 2 ^ 53"
    and "\<not> truthy w"
  shows "mix_color (r1, g1, b1) (r2, g2, b2) w =
           (round_half_even (of_int (r1 + r2) / 2), round_half_even (of_int (g1 + g2) / 2),
            round_half_even (of_int (b1 + b2) / 2))"
  using assms by (simp add: mix_color_def average_ints)

lemma rhe_0: "round_half_even 0 = 0"
  using rhe_of_int[of 0] by simp

lemma rhe_255_half: "round_half_even (255 / 2) = 128"
  by (simp add: fl_eval_simps)

lemma color_brightness_correction_255:
  assumes "\<bar>r\<bar> < 2 ^ 53" "\<bar>g\<bar> < 2 ^ 53" "\<bar>b\<bar> < 2 ^ 53" "LED_BRIGHTNESS cfg = 255"
  shows "color_brightness_correction cfg (r, g, b) = (r, g, b)"
  using assms by (simp add: color_brightness_correction_def fl_one fl_of_int py_trunc_of_int)

lemma color_brightness_correction_0:
  assumes "LED_BRIGHTNESS cfg = 0"
  shows "color_brightness_correction cfg (r, g, b) = (0, 0, 0)"
  using assms by (simp add: color_brightness_correction_def fl_zero py_trunc_def)

text \<open>
  Claim C5. With the configured brightness 255 the brightness correction returns a
  colour with channels in \<open>[0, 255]\<close> unchanged (\<open>255 / 255\<close> is \<open>1.0\<close> and
  \<open>c * 1.0\<close> is exact); with brightness 0 it returns \<open>(0, 0, 0)\<close>.
\<close>

theorem color_brightness_correction_full_and_zero:
  assumes "0 \<le> r" "r \<le> 255" "0 \<le> g" "g \<le> 255" "0 \<le> b" "b \<le> 255"
  shows "color_brightness_correction (cfg\<lparr>LED_BRIGHTNESS := 255\<rparr>) (r, g, b) = (r, g, b)
       \<and> color_brightness_correction (cfg\<lparr>LED_BRIGHTNESS := 0\<rparr>) (r, g, b) = (0, 0, 0)"
  using assms
  by (simp add: color_brightness_correction_255 color_brightness_correction_0)

theorem color_brightness_correction_full_and_zero_witness:
  "color_brightness_correction (script_config\<lparr>LED_BRIGHTNESS := 255\<rparr>) (12, 200, 255) = (12, 200, 255)
   \<and> color_brightness_correction (script_config\<lparr>LED_BRIGHTNESS := 0\<rparr>) (12, 200, 255) = (0, 0, 0)"
  using color_brightness_correction_full_and_zero[of 12 200 255 script_config] by simp

text \<open>
  Claim C3. A weight that is given is tested by its truth value, so the weight \<open>0\<close>
  (or \<open>0.0\<close>) is treated as no weight: instead of scaling the first colour by 0 and
  the second by 1, the call below returns the unweighted average of the two colours,
  the same as with \<open>None\<close>. Scaling first would give 0 in the red channel (last
  line), the code gives 128.
\<close>

theorem mix_color_zero_weight_unweighted:
  "mix_color (255, 0, 0) (0, 0, 0) (Some (PFloat 0)) = (128, 0, 0)
   \<and> mix_color (255, 0, 0) (0, 0, 0) (Some (PInt 0)) = (128, 0, 0)
   \<and> mix_color (255, 0, 0) (0, 0, 0) None = (128, 0, 0)
   \<and> average (py_mul (PInt 255) (PFloat 0)) (py_mul (PInt 0) (py_sub (PInt 1) (PFloat 0))) = 0"
  by (simp add: mix_color_unweighted rhe_255_half rhe_0 weighted_red_channel
        del: py_mul.simps py_sub.simps)

text \<open>
  Claim C4, as stated, fails: with weight 1 the first colour is scaled by 1, the second
  by 0, and the two are then averaged, which halves the first colour.
\<close>

theorem mix_color_weight_one_counterexample:
  "mix_color (255, 0, 0) (0, 0, 255) (Some (PFloat 1)) = (128, 0, 0)
   \<and> mix_color (255, 0, 0) (0, 0, 255) (Some (PFloat 1)) \<noteq> (255, 0, 0)"
  by (simp add: mix_color_weight_one rhe_255_half rhe_0)

text \<open>
  Claim C4, amended. For colours with channels in \<open>[0, 255]\<close>, \<open>mix_color\<close> with
  weight 1 (the float or the int) returns every channel of the first colour halved and
  rounded half to even, whatever the second colour is.
\<close>

theorem mix_color_weight_one_halves:
  assumes "0 \<le> r1" "r1 \<le> 255" "0 \<le> g1" "g1 \<le> 255" "0 \<le> b1" "b1 \<le> 255"
    and "0 \<le> r2" "r2 \<le> 255" "0 \<le> g2" "g2 \<le> 255" "0 \<le> b2" "b2 \<le> 255"
  shows "mix_color (r1, g1, b1) (r2, g2, b2) (Some (PFloat 1)) =
           (round_half_even (of_int r1 / 2), round_half_even (of_int g1 / 2),
            round_half_even (of_int b1 / 2))
       \<and> mix_color (r1, g1, b1) (r2, g2, b2) (Some (PInt 1)) =
           (round_half_even (of_int r1 / 2), round_half_even (of_int g1 / 2),
            round_half_even (of_int b1 / 2))"
  using assms by (intro conjI mix_color_weight_one mix_color_weight_one_int) simp_all

theorem mix_color_weight_one_halves_witness:
  "mix_color (255, 10, 7) (3, 4, 255) (Some (PFloat 1)) = (128, 5, 4)"
  using mix_color_weight_one_halves[of 255 10 7 3 4 255] by (simp add: fl_eval_simps)

section \<open>Properties of the status client\<close>

lemma heating_percent_cases:
  "heating_percent temp =
     (if target temp = 0 then Inr 0
      else math_floor (fl (fl (temperature temp / target temp) * 100)))"
  by (simp add: heating_percent_def float_truediv_def)

text \<open>
  Claim C6. \<open>heating_percent\<close> returns 0 when the target is zero, whatever the
  temperature is, and never raises \<open>ZeroDivisionError\<close>; for any other target it
  returns \<open>math.floor(temperature / target * 100)\<close>, the floor of the product computed
  in floats (an integer unless that product is infinite, where \<open>math.floor\<close> raises).
\<close>

theorem heating_percent_zero_target:
  "(target temp = 0 \<longrightarrow> heating_percent temp = Inr 0)
   \<and> heating_percent temp \<noteq> Inl ZeroDivisionError
   \<and> (target temp \<noteq> 0 \<longrightarrow>
        heating_percent temp = math_floor (fl (fl (temperature temp / target temp) * 100)))
   \<and> (target temp \<noteq> 0 \<and> \<not> overflowed (fl (fl (temperature temp / target temp) * 100)) \<longrightarrow>
        heating_percent temp = Inr \<lfloor>fl (fl (temperature temp / target temp) * 100)\<rfloor>)"
  by (simp add: heating_percent_cases math_floor_def)

theorem heating_percent_zero_target_witness:
  "heating_percent \<lparr>temperature = 43 / 2, target = 0\<rparr> = Inr 0
   \<and> heating_percent \<lparr>temperature = 30, target = 60\<rparr> = Inr 50"
  using heating_percent_zero_target[of "\<lparr>temperature = 43 / 2, target = 0\<rparr>"]
        heating_percent_zero_target[of "\<lparr>temperature = 30, target = 60\<rparr>"]
  by (simp add: fl_half fl_numeral math_floor_def overflowed_def)

section \<open>Properties of the driver\<close>

lemma py_range_nat: "py_range (int k) = map int [0..<k]"
  by (simp add: py_range_def)

lemma py_range_nonpos: "k \<le> 0 \<Longrightarrow> py_range k = []"
  by (simp add: py_range_def)

lemma length_py_range: "length (py_range k) = nat k"
  by (simp add: py_range_def)

lemma set_py_range: "set (py_range k) = {0..<k}"
  by (cases "0 \<le> k") (simp_all add: py_range_def image_int_atLeastLessThan)

lemma distinct_py_range: "distinct (py_range k)"
  by (simp add: py_range_def distinct_map inj_on_def)

lemma py_range_Suc: "py_range (int (Suc k)) = py_range (int k) @ [int k]"
  unfolding py_range_def nat_int by simp

lemma py_range_split:
  assumes "0 \<le> a" "0 \<le> b"
  shows "py_range (a + b) = py_range a @ map (\<lambda>i. a + i) (py_range b)"
proof -
  have "[0..<nat a + nat b] = [0..<nat a] @ map (\<lambda>i. nat a + i) [0..<nat b]"
    by (rule nth_equalityI) (auto simp add: nth_append)
  then have "map int [0..<nat a + nat b]
      = map int [0..<nat a] @ map (\<lambda>i. a + i) (map int [0..<nat b])"
    using assms by (simp add: comp_def)
  then show ?thesis using assms by (simp add: py_range_def nat_add_distrib)
qed

lemma rev_py_range: "rev (py_range k) = map (\<lambda>i. k - 1 - i) (py_range k)"
proof (cases "0 \<le> k")
  case False
  then show ?thesis by (simp add: py_range_def)
next
  case True
  have "rev [0..<nat k] = map (\<lambda>i. nat k - 1 - i) [0..<nat k]"
    by (rule nth_equalityI) (simp_all add: rev_nth)
  then have "rev (map int [0..<nat k]) = map int (map (\<lambda>i. nat k - 1 - i) [0..<nat k])"
    by (simp add: rev_map)
  also have "\<dots> = map (\<lambda>i. k - 1 - i) (map int [0..<nat k])"
    using True by (auto simp add: comp_def)
  finally show ?thesis by (simp add: py_range_def)
qed

lemma driver_calls_append:
  "driver_calls (xs @ ys) s =
     (case driver_calls xs s of None \<Rightarrow> None | Some s' \<Rightarrow> driver_calls ys s')"
  by (induction xs arbitrary: s) (auto split: option.splits)

lemma driver_call_length:
  "driver_call c s = Some s' \<Longrightarrow> length (pixels s') = length (pixels s)"
  by (cases c) (auto split: if_splits)

lemma driver_calls_length:
  "driver_calls cs s = Some s' \<Longrightarrow> length (pixels s') = length (pixels s)"
proof (induction cs arbitrary: s)
  case Nil
  then show ?case by simp
next
  case (Cons c cs)
  then show ?case
    by (auto split: option.splits dest!: driver_call_length)
qed

lemma driver_calls_take:
  assumes "driver_calls cs s = Some s'"
  shows "\<exists>s1. driver_calls (take k cs) s = Some s1"
proof -
  have "driver_calls (take k cs @ drop k cs) s = Some s'" using assms by simp
  then show ?thesis
    unfolding driver_calls_append by (auto split: option.splits)
qed

lemma written_append: "written (xs @ ys) = written xs @ written ys"
  by (induction xs rule: written.induct) simp_all

lemma written_set_pixels: "written (map (\<lambda>i. set_pixel (g i) c) xs) = map g xs"
proof (cases c)
  case (fields r g b)
  then show ?thesis by (induction xs) (simp_all add: set_pixel_def)
qed

lemma written_in_range_succeeds:
  assumes "\<forall>i \<in> set (written cs). 0 \<le> i \<and> i < int (length (pixels s))"
  shows "\<exists>s'. driver_calls cs s = Some s'"
  using assms
proof (induction cs arbitrary: s)
  case Nil
  then show ?case by simp
next
  case (Cons c cs)
  obtain s1 where s1: "driver_call c s = Some s1"
    using Cons.prems by (cases c) auto
  have "length (pixels s1) = length (pixels s)" using s1 by (rule driver_call_length)
  moreover have "set (written cs) \<subseteq> set (written (c # cs))" by (cases c) auto
  ultimately have "\<exists>s'. driver_calls cs s1 = Some s'"
    using Cons.prems by (intro Cons.IH) auto
  then show ?case using s1 by simp
qed

text \<open>A sequence of calls that writes one colour only.\<close>

lemma one_colour_pixels:
  assumes "\<forall>x \<in> set cs. \<forall>i r g b. x = SetPixelColorRGB i r g b \<longrightarrow> (r, g, b) = c"
    and "driver_calls cs s = Some s'" and "j < length (pixels s)"
  shows "pixels s' ! j = (if int j \<in> set (written cs) then c else pixels s ! j)"
  using assms
proof (induction cs arbitrary: s)
  case Nil
  then show ?case by simp
next
  case (Cons x cs)
  obtain s1 where s1: "driver_call x s = Some s1" and rest: "driver_calls cs s1 = Some s'"
    using Cons.prems(2) by (auto split: option.splits)
  have len: "length (pixels s1) = length (pixels s)" using s1 by (rule driver_call_length)
  have ih: "pixels s' ! j = (if int j \<in> set (written cs) then c else pixels s1 ! j)"
    using Cons.prems rest len by (intro Cons.IH) auto
  show ?case
  proof (cases x)
    case (SetPixelColorRGB i r g b)
    then have col: "(r, g, b) = c" using Cons.prems(1) by simp
    have ok: "0 \<le> i" "i < int (length (pixels s))" "s1 = s\<lparr>pixels := (pixels s)[nat i := (r, g, b)]\<rparr>"
      using s1 SetPixelColorRGB by (auto split: if_splits)
    show ?thesis
      using ih ok col Cons.prems(3) SetPixelColorRGB
      by (auto simp add: nth_list_update)
  qed (use ih s1 in auto)
qed

lemma one_colour_all_pixels:
  assumes "\<forall>x \<in> set cs. \<forall>i r g b. x = SetPixelColorRGB i r g b \<longrightarrow> (r, g, b) = c"
    and "driver_calls cs s = Some s'" and "set (written cs) = {0..<int (length (pixels s))}"
  shows "pixels s' = replicate (length (pixels s)) c"
proof (rule nth_equalityI)
  show "length (pixels s') = length (replicate (length (pixels s)) c)"
    using driver_calls_length[OF assms(2)] by simp
next
  fix j assume "j < length (pixels s')"
  then have j: "j < length (pixels s)" using driver_calls_length[OF assms(2)] by simp
  then show "pixels s' ! j = replicate (length (pixels s)) c ! j"
    using one_colour_pixels[OF assms(1,2) j] assms(3) by simp
qed

section \<open>Properties of progress\<close>

lemma py_range_1: "py_range 1 = [0]"
  by (simp add: py_range_def)

lemma py_range_snoc: "0 \<le> w \<Longrightarrow> py_range (w + 1) = py_range w @ [w]"
  using py_range_split[of w 1] by (simp add: py_range_1)

lemma segments_forward:
  assumes "0 \<le> w" "0 \<le> r" "b = 0 \<or> b = 1" "n = w + b + r"
  shows "py_range w @ (if b = 1 then [w] else []) @ map (\<lambda>i. (n - r) + i) (py_range r)
         = py_range n"
proof (cases "b = 1")
  case True
  have "py_range n = py_range (w + 1) @ map (\<lambda>i. (w + 1) + i) (py_range r)"
    using py_range_split[of "w + 1" r] assms True by simp
  moreover have "n - r = w + 1" using assms True by simp
  ultimately show ?thesis using True assms(1) by (simp add: py_range_snoc)
next
  case False
  then have b: "b = 0" using assms by simp
  have "py_range n = py_range w @ map (\<lambda>i. w + i) (py_range r)"
    using py_range_split[of w r] assms b by simp
  moreover have "n - r = w" using assms b by simp
  ultimately show ?thesis using b by simp
qed

lemma segments_reverse:
  assumes "0 \<le> w" "0 \<le> r" "b = 0 \<or> b = 1" "n = w + b + r"
  shows "map (\<lambda>i. (n - 1) - i) (py_range w) @ (if b = 1 then [(n - w) - 1] else [])
           @ map (\<lambda>i. (r - 1) - i) (py_range r)
         = rev (py_range n)"
proof -
  define m where "m = w + b"
  have m0: "0 \<le> m" using assms by (auto simp add: m_def)
  have n: "n = r + m" using assms by (simp add: m_def)
  have "py_range n = py_range r @ map (\<lambda>i. r + i) (py_range m)"
    unfolding n using py_range_split[of r m] assms m0 by simp
  then have "rev (py_range n) = map (\<lambda>i. r + i) (rev (py_range m)) @ rev (py_range r)"
    by (simp add: rev_map)
  also have "\<dots> = map (\<lambda>i. (n - 1) - i) (py_range m) @ map (\<lambda>i. (r - 1) - i) (py_range r)"
    by (simp add: rev_py_range[of m] rev_py_range[of r] comp_def n algebra_simps)
  also have "py_range m = py_range w @ (if b = 1 then [w] else [])"
    using assms by (auto simp add: m_def py_range_snoc)
  finally show ?thesis by (simp add: algebra_simps)
qed

lemma fl_nonpos: "x \<le> 0 \<Longrightarrow> fl x \<le> 0"
  using fl_le_repr[of x 0 0] by simp

lemma fl_of_nat: "n < 2 ^ 53 \<Longrightarrow> fl (of_nat n) = of_nat n"
  using fl_of_int[of "int n"] by simp

lemma upper_bar_eq: "upper_bar n p = fl (fl (of_int p / 100) * fl (of_nat n))"
  by (simp add: upper_bar_def)

lemma upper_bar_nonneg: "0 \<le> p \<Longrightarrow> 0 \<le> upper_bar n p"
  unfolding upper_bar_eq by (intro fl_nonneg mult_nonneg_nonneg) simp_all

lemma upper_bar_mono:
  assumes "0 \<le> p" "p \<le> q"
  shows "upper_bar n p \<le> upper_bar n q"
proof -
  have 1: "fl (of_int p / 100) \<le> fl (of_int q / 100)"
    using assms by (intro fl_mono) simp_all
  have 2: "0 \<le> fl (of_int p / 100)" using assms by (intro fl_nonneg) simp
  have 3: "(0::rat) \<le> fl (of_nat n)" by (intro fl_nonneg) simp
  have 4: "0 \<le> fl (of_int p / 100) * fl (of_nat n)"
    using 2 3 by (rule mult_nonneg_nonneg)
  have 5: "fl (of_int p / 100) * fl (of_nat n) \<le> fl (of_int q / 100) * fl (of_nat n)"
    using 1 3 by (rule mult_right_mono)
  show ?thesis unfolding upper_bar_eq using 4 5 by (rule fl_mono)
qed

lemma upper_bar_le:
  assumes "n < 2 ^ 53" "p \<le> 100"
  shows "upper_bar n p \<le> of_nat n"
proof (cases "0 \<le> p")
  case True
  have a0: "0 \<le> fl (of_int p / 100)" using True by (intro fl_nonneg) simp
  have "fl (of_int p / 100) \<le> of_int 1"
    using True assms by (intro fl_le_int) simp_all
  then have "fl (of_int p / 100) * of_nat n \<le> 1 * (of_nat n :: rat)"
    by (intro mult_right_mono) simp_all
  then have le: "fl (of_int p / 100) * of_nat n \<le> of_int (int n)" by simp
  have ge: "0 \<le> fl (of_int p / 100) * of_nat n" using a0 by simp
  have bd: "int n < 2 ^ 53" using assms(1) by simp
  have "fl (fl (of_int p / 100) * of_nat n) \<le> of_int (int n)"
    using ge le bd by (rule fl_le_int)
  then show ?thesis using assms(1) by (simp add: upper_bar_eq fl_of_nat)
next
  case False
  then have "fl (of_int p / 100) \<le> 0" by (intro fl_nonpos) simp
  then have "fl (of_int p / 100) * of_nat n \<le> 0" by (simp add: mult_nonpos_nonneg)
  then have "fl (fl (of_int p / 100) * of_nat n) \<le> 0" by (rule fl_nonpos)
  then show ?thesis using assms(1) by (simp add: upper_bar_eq fl_of_nat)
qed

lemma upper_bar_0: "upper_bar n 0 = 0"
  by (simp add: upper_bar_eq fl_zero)

lemma upper_bar_100: "n < 2 ^ 53 \<Longrightarrow> upper_bar n 100 = of_nat n"
  by (simp add: upper_bar_eq fl_one fl_of_nat)

lemma whole_nonneg:
  assumes "0 \<le> upper_bar n p"
  shows "upper_whole n p = of_int \<lfloor>upper_bar n p\<rfloor>"
    and "py_int (PFloat (upper_whole n p)) = \<lfloor>upper_bar n p\<rfloor>"
    and "upper_remainder n p = upper_bar n p - of_int \<lfloor>upper_bar n p\<rfloor>"
  using assms by (simp_all add: upper_whole_def upper_remainder_def modf_def py_trunc_def)

lemma written_set_pixel: "written (set_pixel i c # cs) = i # written cs"
  by (cases c) (simp add: set_pixel_def)

lemma progress_segments:
  assumes "n < 2 ^ 53" "0 \<le> p" "p \<le> 100"
  defines "w \<equiv> \<lfloor>upper_bar n p\<rfloor>"
    and "b \<equiv> (if 0 < upper_remainder n p then 1 else 0 :: int)"
    and "r \<equiv> pixels_remaining n p"
  shows "0 \<le> w" "0 \<le> r" "b = 0 \<or> b = 1" "int n = w + b + r"
    and "py_int (PFloat (upper_whole n p)) = w"
proof -
  have ub0: "0 \<le> upper_bar n p" using assms(2) by (rule upper_bar_nonneg)
  have ubn: "upper_bar n p \<le> of_nat n" using assms(1,3) by (rule upper_bar_le)
  show w0: "0 \<le> w" using ub0 by (simp add: w_def)
  show pw: "py_int (PFloat (upper_whole n p)) = w"
    using whole_nonneg(2)[OF ub0] by (simp add: w_def)
  show b01: "b = 0 \<or> b = 1" by (simp add: b_def)
  have "of_int w \<le> upper_bar n p" by (simp add: w_def)
  then have "(of_int w :: rat) \<le> of_int (int n)" using ubn by simp
  then have wn: "w \<le> int n" by (simp only: of_int_le_iff)
  have "w < int n" if "b = 1"
  proof -
    have "0 < upper_remainder n p" using that by (simp add: b_def split: if_splits)
    then have "of_int w < upper_bar n p"
      using whole_nonneg(3)[OF ub0] by (simp add: w_def)
    then have "(of_int w :: rat) < of_int (int n)" using ubn by simp
    then show ?thesis by (simp only: of_int_less_iff)
  qed
  then have wb: "w + b \<le> int n" using wn b01 by auto
  have r: "r = int n - w - b"
    unfolding r_def pixels_remaining_def pw length_py_range b_def using w0 by simp
  show "0 \<le> r" using wb r by simp
  show "int n = w + b + r" using r by simp
qed

lemma progress_written:
  assumes "n < 2 ^ 53" "0 \<le> p" "p \<le> 100"
  shows "written (progress cfg n p base_color progress_color) =
           (if REVERSE cfg then rev (py_range (int n)) else py_range (int n))"
proof -
  define w where "w = \<lfloor>upper_bar n p\<rfloor>"
  define b where "b = (if 0 < upper_remainder n p then 1 else 0 :: int)"
  define r where "r = pixels_remaining n p"
  note seg = progress_segments[OF assms, folded w_def b_def r_def]
  have A: "written (progress_pixels cfg n p progress_color) =
             map (\<lambda>i. if REVERSE cfg then (int n - 1) - i else i) (py_range w)"
    unfolding progress_pixels_def seg(5) by (rule written_set_pixels)
  have B: "written (tween_pixel cfg n p base_color progress_color) =
             (if b = 1 then [if REVERSE cfg then (int n - w) - 1 else w] else [])"
    unfolding tween_pixel_def Let_def seg(5) by (simp add: written_set_pixel b_def)
  have C: "written (base_pixels cfg n p base_color) =
             map (\<lambda>i. if REVERSE cfg then (r - 1) - i else (int n - r) + i) (py_range r)"
    unfolding base_pixels_def Let_def r_def[symmetric] by (rule written_set_pixels)
  have W: "written (progress cfg n p base_color progress_color) =
             written (progress_pixels cfg n p progress_color)
             @ written (tween_pixel cfg n p base_color progress_color)
             @ written (base_pixels cfg n p base_color)"
    by (simp add: progress_def written_append)
  show ?thesis
  proof (cases "REVERSE cfg")
    case True
    then show ?thesis
      unfolding W A B C using segments_reverse[OF seg(1,2,3,4)] by (cases "b = 1") simp_all
  next
    case False
    then show ?thesis
      unfolding W A B C using segments_forward[OF seg(1,2,3,4)] by (cases "b = 1") simp_all
  qed
qed

lemma progress_written_set:
  assumes "n < 2 ^ 53" "0 \<le> p" "p \<le> 100"
  shows "set (written (progress cfg n p base_color progress_color)) = {0..<int n}"
    and "distinct (written (progress cfg n p base_color progress_color))"
  by (simp_all add: progress_written[OF assms] set_py_range distinct_py_range)

lemma py_range_5: "py_range 5 = [0, 1, 2, 3, 4]"
  by (simp add: py_range_def upt_rec)

lemma py_range_4: "py_range 4 = [0, 1, 2, 3]"
  by (simp add: py_range_def upt_rec)

lemma fl_11_20: "fl (11 / 20) = 2476979795053773 / 4503599627370496"
  using fl_eval[of "- 1" "11 / 20"] by (simp add: fl_eval_simps)

lemma fl_55_10: "fl (12384898975268865 / 2251799813685248) = 11 / 2"
  using fl_eval[of 2 "12384898975268865 / 2251799813685248"] by (simp add: fl_eval_simps)

lemma upper_bar_10_55: "upper_bar 10 55 = 11 / 2"
  by (simp add: upper_bar_eq fl_11_20 fl_numeral fl_55_10)

lemma modf_10_55: "upper_whole 10 55 = 5" "upper_remainder 10 55 = 1 / 2"
  by (simp_all add: upper_whole_def upper_remainder_def upper_bar_10_55 modf_def py_trunc_def
        floor_rat_numeral_div)

lemma pixels_remaining_10_55: "pixels_remaining 10 55 = 4"
  by (simp add: pixels_remaining_def modf_10_55 py_trunc_def length_py_range)

lemma progress_10_55:
  "progress cfg 10 55 base_color progress_color =
     SetBrightness (LED_BRIGHTNESS cfg)
     # map (\<lambda>i. set_pixel (if REVERSE cfg then 9 - i else i)
                   (color_brightness_correction cfg progress_color)) [0, 1, 2, 3, 4]
     @ [set_pixel (if REVERSE cfg then 4 else 5)
          (color_brightness_correction cfg
             (mix_color progress_color base_color (Some (PFloat (1 / 2)))))]
     @ map (\<lambda>i. set_pixel (if REVERSE cfg then 3 - i else 6 + i)
                   (color_brightness_correction cfg base_color)) [0, 1, 2, 3]
     @ [Show]"
  by (simp add: progress_def progress_pixels_def tween_pixel_def base_pixels_def
        pixels_remaining_10_55 modf_10_55 py_trunc_def py_range_5 py_range_4)

lemma driver_calls_snoc_Show:
  assumes "driver_calls (cs @ [Show]) s = Some s'"
  shows "\<exists>s1. driver_calls cs s = Some s1
           \<and> s' = s1\<lparr>frames := frames s1 @ [(pixels s1, brightness s1)]\<rparr>"
  using assms unfolding driver_calls_append by (auto split: option.splits)

text \<open>Calls that leave the brightness alone flush every frame at the brightness they
  found.\<close>

lemma frames_brightness:
  assumes "\<forall>v. SetBrightness v \<notin> set cs" "driver_calls cs s = Some s'"
  shows "brightness s' = brightness s
       \<and> (\<exists>new. frames s' = frames s @ new
              \<and> map snd new = replicate (length new) (brightness s))"
  using assms
proof (induction cs arbitrary: s)
  case Nil
  then show ?case by simp
next
  case (Cons x cs)
  obtain s1 where s1: "driver_call x s = Some s1" and rest: "driver_calls cs s1 = Some s'"
    using Cons.prems(2) by (auto split: option.splits)
  have nb: "\<forall>v. SetBrightness v \<notin> set cs" using Cons.prems(1) by auto
  from Cons.IH[OF nb rest] obtain new where
    ih: "brightness s' = brightness s1" "frames s' = frames s1 @ new"
        "map snd new = replicate (length new) (brightness s1)"
    by auto
  have x: "\<forall>v. x \<noteq> SetBrightness v" using Cons.prems(1) by auto
  have "brightness s1 = brightness s
        \<and> (\<exists>f. frames s1 = frames s @ f \<and> map snd f = replicate (length f) (brightness s))"
    using s1 x by (cases x) (auto split: if_splits)
  then obtain f where f: "brightness s1 = brightness s" "frames s1 = frames s @ f"
      "map snd f = replicate (length f) (brightness s)"
    by auto
  have "frames s' = frames s @ (f @ new)" using ih f by simp
  moreover have "map snd (f @ new) = replicate (length (f @ new)) (brightness s)"
    using ih f by (simp add: replicate_add)
  ultimately show ?case using ih(1) f(1) by metis
qed

lemma only_pixels_keep:
  assumes "\<forall>x \<in> set cs. \<exists>i r g b. x = SetPixelColorRGB i r g b"
    and "driver_calls cs s = Some s'"
  shows "frames s' = frames s \<and> brightness s' = brightness s"
  using assms
proof (induction cs arbitrary: s)
  case Nil
  then show ?case by simp
next
  case (Cons x cs)
  obtain s1 where s1: "driver_call x s = Some s1" and rest: "driver_calls cs s1 = Some s'"
    using Cons.prems(2) by (auto split: option.splits)
  have "frames s1 = frames s \<and> brightness s1 = brightness s"
    using s1 Cons.prems(1) by (auto split: if_splits)
  moreover have "frames s' = frames s1 \<and> brightness s' = brightness s1"
    using Cons.prems(1) rest by (intro Cons.IH) auto
  ultimately show ?case by simp
qed

lemma set_pixel_not_brightness:
  "SetBrightness v \<noteq> set_pixel i col" "set_pixel i col \<noteq> SetBrightness v"
  by (cases col, simp add: set_pixel_def)+

lemma progress_no_brightness:
  "\<forall>v. SetBrightness v \<notin> set (progress_pixels cfg n p c
        @ tween_pixel cfg n p b c @ base_pixels cfg n p b @ [Show])"
  by (auto simp add: progress_pixels_def tween_pixel_def base_pixels_def Let_def
        set_pixel_not_brightness)

lemma progress_succeeds:
  assumes "n < 2 ^ 53" "0 \<le> p" "p \<le> 100" "length (pixels s) = n"
  shows "\<exists>s'. driver_calls (progress cfg n p b c) s = Some s'"
  using assms by (intro written_in_range_succeeds) (simp add: progress_written_set)

lemma progress_shown:
  assumes "driver_calls (progress cfg n p b c) s = Some s'"
  shows "brightness s' = LED_BRIGHTNESS cfg"
    and "frames s' = frames s @ [(pixels s', LED_BRIGHTNESS cfg)]"
proof -
  let ?body = "progress_pixels cfg n p c @ tween_pixel cfg n p b c @ base_pixels cfg n p b"
  have run: "driver_calls ((SetBrightness (LED_BRIGHTNESS cfg) # ?body) @ [Show]) s = Some s'"
    using assms by (simp add: progress_def)
  from driver_calls_snoc_Show[OF run] obtain s1 where
    s1: "driver_calls (SetBrightness (LED_BRIGHTNESS cfg) # ?body) s = Some s1"
    and s': "s' = s1\<lparr>frames := frames s1 @ [(pixels s1, brightness s1)]\<rparr>"
    by auto
  have body: "driver_calls ?body (s\<lparr>brightness := LED_BRIGHTNESS cfg\<rparr>) = Some s1"
    using s1 by simp
  have "\<forall>x \<in> set ?body. \<exists>i r g bl. x = SetPixelColorRGB i r g bl"
    by (auto simp add: progress_pixels_def tween_pixel_def base_pixels_def Let_def
          set_pixel_def split: prod.splits)
  from only_pixels_keep[OF this body]
  have nofr: "frames s1 = frames s \<and> brightness s1 = LED_BRIGHTNESS cfg" by simp
  show "brightness s' = LED_BRIGHTNESS cfg" using nofr s' by simp
  show "frames s' = frames s @ [(pixels s', LED_BRIGHTNESS cfg)]" using nofr s' by simp
qed


lemma progress_one_colour:
  assumes "n < 2 ^ 53" "length (pixels s) = n" "0 \<le> p" "p \<le> 100"
    and "\<forall>x \<in> set (progress cfg n p b c). \<forall>i r g bl.
           x = SetPixelColorRGB i r g bl \<longrightarrow> (r, g, bl) = col"
  shows "\<exists>s'. driver_calls (progress cfg n p b c) s = Some s'
           \<and> pixels s' = replicate n col
           \<and> frames s' = frames s @ [(replicate n col, LED_BRIGHTNESS cfg)]"
proof -
  obtain s' where s': "driver_calls (progress cfg n p b c) s = Some s'"
    using progress_succeeds[OF assms(1,3,4,2)] by blast
  have "set (written (progress cfg n p b c)) = {0..<int (length (pixels s))}"
    using progress_written_set(1)[OF assms(1,3,4)] assms(2) by simp
  from one_colour_all_pixels[OF assms(5) s' this]
  have px: "pixels s' = replicate n col" using assms(2) by simp
  then show ?thesis using s' progress_shown(2)[OF s'] by simp
qed

lemma progress_0:
  "progress cfg n 0 b c =
     SetBrightness (LED_BRIGHTNESS cfg) # base_pixels cfg n 0 b @ [Show]"
  by (simp add: progress_def progress_pixels_def tween_pixel_def upper_whole_def
        upper_remainder_def upper_bar_0 modf_def py_trunc_def py_range_def)

lemma progress_100:
  assumes "n < 2 ^ 53"
  shows "progress cfg n 100 b c =
     SetBrightness (LED_BRIGHTNESS cfg) # progress_pixels cfg n 100 c @ [Show]"
proof -
  have w: "upper_whole n 100 = of_nat n" "upper_remainder n 100 = 0"
    using assms
    by (simp_all add: upper_whole_def upper_remainder_def upper_bar_100 modf_def py_trunc_def)
  have "pixels_remaining n 100 = 0"
    by (simp add: pixels_remaining_def w py_trunc_def length_py_range)
  then show ?thesis
    by (simp add: progress_def tween_pixel_def base_pixels_def w py_range_def)
qed

lemma set_pixel_colour: "set_pixel j col = SetPixelColorRGB i r g bl \<Longrightarrow> (r, g, bl) = col"
  by (cases col) (simp add: set_pixel_def)

lemma lit_pixels_ceiling:
  assumes "0 \<le> upper_bar n p"
  shows "lit_pixels n p = \<lceil>upper_bar n p\<rceil>"
proof -
  let ?u = "upper_bar n p"
  have w: "py_int (PFloat (upper_whole n p)) = \<lfloor>?u\<rfloor>" using whole_nonneg(2)[OF assms] .
  have r: "upper_remainder n p = ?u - of_int \<lfloor>?u\<rfloor>" using whole_nonneg(3)[OF assms] .
  have f0: "0 \<le> \<lfloor>?u\<rfloor>" using assms by simp
  have l: "lit_pixels n p = \<lfloor>?u\<rfloor> + (if of_int \<lfloor>?u\<rfloor> < ?u then 1 else 0)"
    unfolding lit_pixels_def pixels_remaining_def w length_py_range r using f0 by simp
  show ?thesis
  proof (cases "of_int \<lfloor>?u\<rfloor> < ?u")
    case True
    then have "\<lceil>?u\<rceil> = \<lfloor>?u\<rfloor> + 1"
    proof (intro ceiling_unique)
      show "of_int (\<lfloor>?u\<rfloor> + 1) - 1 < ?u" using True by simp
      show "?u \<le> of_int (\<lfloor>?u\<rfloor> + 1)" using floor_correct[of ?u] by auto
    qed
    then show ?thesis using l True by simp
  next
    case False
    then have "?u = of_int \<lfloor>?u\<rfloor>" by (simp add: not_less antisym)
    then have "\<lceil>?u\<rceil> = \<lfloor>?u\<rfloor>" by (metis ceiling_of_int)
    then show ?thesis using l False by simp
  qed
qed

lemma lit_pixels_mono:
  assumes "0 \<le> p" "p \<le> q"
  shows "lit_pixels n p \<le> lit_pixels n q"
proof -
  have "0 \<le> upper_bar n p" using assms(1) by (rule upper_bar_nonneg)
  moreover have "0 \<le> upper_bar n q" using assms by (intro upper_bar_nonneg) simp
  moreover have "upper_bar n p \<le> upper_bar n q" using assms by (rule upper_bar_mono)
  ultimately show ?thesis by (simp add: lit_pixels_ceiling ceiling_mono)
qed

lemma progress_0_pixels:
  assumes "n < 2 ^ 53" "length (pixels s) = n"
  shows "\<exists>s'. driver_calls (progress cfg n 0 b c) s = Some s'
           \<and> pixels s' = replicate n (color_brightness_correction cfg b)
           \<and> frames s' = frames s
                @ [(replicate n (color_brightness_correction cfg b), LED_BRIGHTNESS cfg)]"
proof (rule progress_one_colour[OF assms])
  show "\<forall>x \<in> set (progress cfg n 0 b c). \<forall>i r g bl.
          x = SetPixelColorRGB i r g bl \<longrightarrow> (r, g, bl) = color_brightness_correction cfg b"
    by (auto simp add: progress_0 base_pixels_def Let_def dest: set_pixel_colour)
qed simp_all

lemma progress_100_pixels:
  assumes "n < 2 ^ 53" "length (pixels s) = n"
  shows "\<exists>s'. driver_calls (progress cfg n 100 b c) s = Some s'
           \<and> pixels s' = replicate n (color_brightness_correction cfg c)
           \<and> frames s' = frames s
                @ [(replicate n (color_brightness_correction cfg c), LED_BRIGHTNESS cfg)]"
proof (rule progress_one_colour[OF assms])
  show "\<forall>x \<in> set (progress cfg n 100 b c). \<forall>i r g bl.
          x = SetPixelColorRGB i r g bl \<longrightarrow> (r, g, bl) = color_brightness_correction cfg c"
    by (auto simp add: progress_100[OF assms(1)] progress_pixels_def dest: set_pixel_colour)
qed simp_all

lemma lit_pixels_0: "lit_pixels n 0 = 0"
  by (simp add: lit_pixels_ceiling upper_bar_0)

lemma lit_pixels_100: "n < 2 ^ 53 \<Longrightarrow> lit_pixels n 100 = int n"
  by (simp add: lit_pixels_ceiling upper_bar_100)

lemma fl_20_51: "fl (20 / 51) = 7064470003718425 / 18014398509481984"
  using fl_eval[of "- 2" "20 / 51"] by (simp add: fl_eval_simps)

lemma fl_255_20_51: "fl (1801439850948198375 / 18014398509481984) = 100"
  using fl_eval[of 6 "1801439850948198375 / 18014398509481984"] by (simp add: fl_eval_simps)

lemma correction_heating_base:
  "color_brightness_correction script_config HEATING_BASE_COLOR = (0, 0, 100)"
  by (simp add: color_brightness_correction_def script_config_def HEATING_BASE_COLOR_def
        fl_20_51 fl_numeral fl_zero fl_255_20_51 py_trunc_def)

text \<open>
  Claim C1, as stated, fails: every colour that \<open>progress\<close> writes goes through
  \<open>color_brightness_correction\<close>, so with the brightness 100 of the script the strip
  at 0 percent holds \<open>(0, 0, 100)\<close> in every pixel, not the base colour
  \<open>(0, 0, 255)\<close>.
\<close>

theorem progress_0_counterexample:
  "map_option pixels
     (driver_calls (progress script_config 10 0 HEATING_BASE_COLOR HEATING_PROGRESS_COLOR)
        (new_strip script_config))
     = Some (replicate 10 (0, 0, 100))
   \<and> replicate 10 (0, 0, 100) \<noteq> replicate 10 HEATING_BASE_COLOR"
proof -
  have "length (pixels (new_strip script_config)) = 10"
    by (simp add: new_strip_def script_config_def)
  from progress_0_pixels[OF _ this, of script_config HEATING_BASE_COLOR HEATING_PROGRESS_COLOR]
  have "map_option pixels
     (driver_calls (progress script_config 10 0 HEATING_BASE_COLOR HEATING_PROGRESS_COLOR)
        (new_strip script_config))
     = Some (replicate 10 (0, 0, 100))"
    by (auto simp add: correction_heating_base)
  moreover have "replicate 10 (0, 0, 100) \<noteq> replicate 10 HEATING_BASE_COLOR"
    by (simp add: HEATING_BASE_COLOR_def)
  ultimately show ?thesis by simp
qed

text \<open>
  Claim C1, amended. For a strip of \<open>n < 2 ^ 53\<close> pixels, \<open>progress\<close> at 0 percent
  leaves every pixel at the brightness-corrected base colour and at 100 percent at the
  brightness-corrected progress colour, and flushes that frame; the number of pixels
  not painted with the base colour is 0 at 0 percent, \<open>n\<close> at 100 percent and does
  not decrease when the percentage grows. For 10 pixels and 55 percent the bar is
  \<open>5.5\<close>: five pixels of the corrected progress colour, one boundary pixel of the
  corrected \<open>mix_color(progress_color, base_color, 0.5)\<close> and four pixels of the
  corrected base colour.
\<close>

theorem progress_extremes_and_monotone:
  assumes "n < 2 ^ 53" "length (pixels s) = n" "0 \<le> p" "p \<le> q"
  shows "(\<exists>s'. driver_calls (progress cfg n 0 base_color progress_color) s = Some s'
            \<and> pixels s' = replicate n (color_brightness_correction cfg base_color)
            \<and> frames s' = frames s
                 @ [(replicate n (color_brightness_correction cfg base_color),
                     LED_BRIGHTNESS cfg)])
       \<and> (\<exists>s'. driver_calls (progress cfg n 100 base_color progress_color) s = Some s'
            \<and> pixels s' = replicate n (color_brightness_correction cfg progress_color)
            \<and> frames s' = frames s
                 @ [(replicate n (color_brightness_correction cfg progress_color),
                     LED_BRIGHTNESS cfg)])
       \<and> lit_pixels n 0 = 0 \<and> lit_pixels n 100 = int n
       \<and> lit_pixels n p \<le> lit_pixels n q
       \<and> upper_whole 10 55 = 5 \<and> upper_remainder 10 55 = 1 / 2
       \<and> progress cfg 10 55 base_color progress_color =
           SetBrightness (LED_BRIGHTNESS cfg)
           # map (\<lambda>i. set_pixel (if REVERSE cfg then 9 - i else i)
                         (color_brightness_correction cfg progress_color)) [0, 1, 2, 3, 4]
           @ [set_pixel (if REVERSE cfg then 4 else 5)
                (color_brightness_correction cfg
                   (mix_color progress_color base_color (Some (PFloat (1 / 2)))))]
           @ map (\<lambda>i. set_pixel (if REVERSE cfg then 3 - i else 6 + i)
                         (color_brightness_correction cfg base_color)) [0, 1, 2, 3]
           @ [Show]"
  using progress_0_pixels[OF assms(1,2)] progress_100_pixels[OF assms(1,2)]
    lit_pixels_0 lit_pixels_100[OF assms(1)] lit_pixels_mono[OF assms(3,4)]
    modf_10_55 progress_10_55
  by simp

theorem progress_extremes_and_monotone_witness:
  "driver_calls (progress script_config 10 0 HEATING_BASE_COLOR HEATING_PROGRESS_COLOR)
     (new_strip script_config) \<noteq> None
   \<and> driver_calls (progress script_config 10 100 HEATING_BASE_COLOR HEATING_PROGRESS_COLOR)
     (new_strip script_config) \<noteq> None
   \<and> lit_pixels 10 20 \<le> lit_pixels 10 55"
  using progress_extremes_and_monotone[of 10 "new_strip script_config" 20 55 script_config
          HEATING_BASE_COLOR HEATING_PROGRESS_COLOR]
  by (auto simp add: new_strip_def script_config_def)

text \<open>
  Claim C2. For a percentage in \<open>[0, 100]\<close> and a strip of \<open>n\<close> pixels every index
  that \<open>progress\<close> writes lies in \<open>[0, n - 1]\<close>, so the driver accepts every call,
  whatever \<open>REVERSE\<close> is; when the whole part of the bar equals \<open>n\<close> there is no
  boundary pixel and no base pixel. The bound \<open>n < 2 ^ 53\<close> is the range in which
  the pixel count converts to a float exactly.
\<close>

theorem progress_indices_in_range:
  assumes "n < 2 ^ 53" "0 \<le> p" "p \<le> 100" "length (pixels s) = n"
  shows "set (written (progress cfg n p base_color progress_color)) \<subseteq> {0..int n - 1}
       \<and> driver_calls (progress cfg n p base_color progress_color) s \<noteq> None
       \<and> (py_int (PFloat (upper_whole n p)) = int n \<longrightarrow>
            tween_pixel cfg n p base_color progress_color = []
            \<and> base_pixels cfg n p base_color = [])"
proof -
  note seg = progress_segments[OF assms(1,2,3)]
  have 1: "set (written (progress cfg n p base_color progress_color)) \<subseteq> {0..int n - 1}"
    using progress_written_set(1)[OF assms(1,2,3)] by auto
  have 2: "driver_calls (progress cfg n p base_color progress_color) s \<noteq> None"
    using progress_succeeds[OF assms] by auto
  have 3: "tween_pixel cfg n p base_color progress_color = []
           \<and> base_pixels cfg n p base_color = []"
    if "py_int (PFloat (upper_whole n p)) = int n"
  proof -
    have "\<lfloor>upper_bar n p\<rfloor> = int n" using that seg(5) by simp
    then have "\<not> 0 < upper_remainder n p" "pixels_remaining n p = 0"
      using seg(2,4) by (auto split: if_splits)
    then show ?thesis
      by (simp add: tween_pixel_def base_pixels_def py_range_def)
  qed
  from 1 2 3 show ?thesis by blast
qed

theorem progress_indices_in_range_witness:
  "set (written (progress script_config 10 100 HEATING_BASE_COLOR HEATING_PROGRESS_COLOR))
     \<subseteq> {0..9}
   \<and> driver_calls (progress script_config 10 100 HEATING_BASE_COLOR HEATING_PROGRESS_COLOR)
       (new_strip script_config) \<noteq> None
   \<and> tween_pixel script_config 10 100 HEATING_BASE_COLOR HEATING_PROGRESS_COLOR = []
   \<and> base_pixels script_config 10 100 HEATING_BASE_COLOR = []"
proof -
  have "py_int (PFloat (upper_whole 10 100)) = int 10"
    by (simp add: upper_whole_def upper_bar_100 modf_def py_trunc_def)
  moreover have "length (pixels (new_strip script_config)) = 10"
    by (simp add: new_strip_def script_config_def)
  ultimately show ?thesis
    using progress_indices_in_range[of 10 100 "new_strip script_config" script_config
            HEATING_BASE_COLOR HEATING_PROGRESS_COLOR]
    by simp
qed

text \<open>
  Claim C9. For a percentage in \<open>[0, 100]\<close> one call of \<open>progress\<close> writes every
  index of \<open>[0, n - 1]\<close> exactly once: the indices of the filled segment, of the
  boundary pixel and of the base segment are pairwise disjoint and together are the
  whole strip, whatever \<open>REVERSE\<close> is.
\<close>

theorem progress_writes_each_pixel_once:
  assumes "n < 2 ^ 53" "0 \<le> p" "p \<le> 100"
  shows "written (progress cfg n p base_color progress_color) =
           written (progress_pixels cfg n p progress_color)
           @ written (tween_pixel cfg n p base_color progress_color)
           @ written (base_pixels cfg n p base_color)
       \<and> distinct (written (progress cfg n p base_color progress_color))
       \<and> set (written (progress cfg n p base_color progress_color)) = {0..<int n}
       \<and> set (written (progress_pixels cfg n p progress_color))
           \<inter> set (written (tween_pixel cfg n p base_color progress_color)) = {}
       \<and> set (written (progress_pixels cfg n p progress_color))
           \<inter> set (written (base_pixels cfg n p base_color)) = {}
       \<and> set (written (tween_pixel cfg n p base_color progress_color))
           \<inter> set (written (base_pixels cfg n p base_color)) = {}"
proof -
  have W: "written (progress cfg n p base_color progress_color) =
             written (progress_pixels cfg n p progress_color)
             @ written (tween_pixel cfg n p base_color progress_color)
             @ written (base_pixels cfg n p base_color)"
    by (simp add: progress_def written_append)
  have D: "distinct (written (progress cfg n p base_color progress_color))"
    using assms by (rule progress_written_set(2))
  have S: "set (written (progress cfg n p base_color progress_color)) = {0..<int n}"
    using assms by (rule progress_written_set(1))
  from D have "set (written (progress_pixels cfg n p progress_color))
           \<inter> set (written (tween_pixel cfg n p base_color progress_color)) = {}"
      "set (written (progress_pixels cfg n p progress_color))
           \<inter> set (written (base_pixels cfg n p base_color)) = {}"
      "set (written (tween_pixel cfg n p base_color progress_color))
           \<inter> set (written (base_pixels cfg n p base_color)) = {}"
    unfolding W by auto
  with W D S show ?thesis by blast
qed

theorem progress_writes_each_pixel_once_witness:
  "distinct (written (progress script_config 10 55 HEATING_BASE_COLOR HEATING_PROGRESS_COLOR))
   \<and> set (written (progress script_config 10 55 HEATING_BASE_COLOR HEATING_PROGRESS_COLOR))
       = {0..<10}"
proof -
  have h: "(10::nat) < 2 ^ 53" "(0::int) \<le> 55" "(55::int) \<le> 100" by simp_all
  from progress_writes_each_pixel_once[OF h, of script_config
          HEATING_BASE_COLOR HEATING_PROGRESS_COLOR]
  have "distinct (written (progress script_config 10 55 HEATING_BASE_COLOR HEATING_PROGRESS_COLOR))"
    and "set (written (progress script_config 10 55 HEATING_BASE_COLOR HEATING_PROGRESS_COLOR))
       = {0..<int 10}"
    by blast+
  then show ?thesis by simp
qed

section \<open>Properties of chase, fade and the interrupt handler\<close>

lemma written_concat_steps:
  assumes "\<And>x. x \<in> set xs \<Longrightarrow> written (f x) = g x"
  shows "written (concat (map f xs)) = concat (map g xs)"
  using assms by (induction xs) (simp_all add: written_append)

lemma chase_at_written: "written (chase_at n color i) = py_range (int n)"
proof -
  have "written (chase_at n color i) = concat (map (\<lambda>pixel. [pixel]) (py_range (int n)))"
    unfolding chase_at_def
    by (rule written_concat_steps) (simp add: written_set_pixel)
  then show ?thesis by (simp add: concat_map_singleton)
qed

lemma chase_written_set: "set (written (chase cfg n color reverse)) \<subseteq> {0..<int n}"
proof -
  have "written (chase cfg n color reverse) =
          concat (map (\<lambda>i. py_range (int n)) (chase_positions n reverse))"
    unfolding chase_def by (simp add: written_concat_steps chase_at_written)
  then show ?thesis by (auto simp add: set_py_range)
qed

lemma chase_at_beyond:
  "chase_at n color (int n) =
     concat (map (\<lambda>pixel. [SetPixelColorRGB pixel 0 0 0, Show, Sleep (fl (1 / 100))])
                 (py_range (int n)))"
proof -
  have "map (\<lambda>pixel. [if int n = pixel then set_pixel pixel color
                       else SetPixelColorRGB pixel 0 0 0, Show, Sleep (fl (1 / 100))])
            (py_range (int n))
      = map (\<lambda>pixel. [SetPixelColorRGB pixel 0 0 0, Show, Sleep (fl (1 / 100))])
            (py_range (int n))"
    by (rule map_cong) (auto simp add: set_py_range)
  then show ?thesis unfolding chase_at_def by (rule arg_cong[where f = concat])
qed

lemma chase_at_beyond_off:
  assumes "length (pixels s) = n"
  shows "\<exists>s'. driver_calls (chase_at n color (int n)) s = Some s'
           \<and> pixels s' = replicate n (0, 0, 0)"
proof -
  have wr: "set (written (chase_at n color (int n))) = {0..<int (length (pixels s))}"
    by (simp add: chase_at_written set_py_range assms)
  then obtain s' where s': "driver_calls (chase_at n color (int n)) s = Some s'"
    using written_in_range_succeeds[of "chase_at n color (int n)" s] by auto
  have "\<forall>x \<in> set (chase_at n color (int n)). \<forall>i r g b.
          x = SetPixelColorRGB i r g b \<longrightarrow> (r, g, b) = (0, 0, 0)"
    unfolding chase_at_beyond by auto
  from one_colour_all_pixels[OF this s' wr] show ?thesis using s' assms by simp
qed

lemma chase_positions_forward: "chase_positions n False = map int [0..<n + 1]"
  by (simp add: chase_positions_def py_range_def nat_add_distrib)

lemma chase_positions_backward: "chase_positions n True = rev (map int [0..<n + 1])"
  by (simp add: chase_positions_def py_range_def nat_add_distrib)

lemma upper_bar_nonpos: "p \<le> 0 \<Longrightarrow> upper_bar n p \<le> 0"
proof -
  assume "p \<le> 0"
  then have "fl (of_int p / 100) \<le> 0" by (intro fl_nonpos) simp
  moreover have "(0::rat) \<le> fl (of_nat n)" by (intro fl_nonneg) simp
  ultimately have "fl (of_int p / 100) * fl (of_nat n) \<le> 0" by (rule mult_nonpos_nonneg)
  then show ?thesis unfolding upper_bar_eq by (rule fl_nonpos)
qed

lemma py_trunc_nonpos: "x \<le> 0 \<Longrightarrow> py_trunc x \<le> 0" "x \<le> 0 \<Longrightarrow> x - of_int (py_trunc x) \<le> 0"
proof -
  assume x: "x \<le> 0"
  show "py_trunc x \<le> 0"
    using x by (auto simp add: py_trunc_def ceiling_le_iff)
  show "x - of_int (py_trunc x) \<le> 0"
    using x by (auto simp add: py_trunc_def le_of_int_ceiling)
qed

lemma progress_written_nonpos:
  assumes "p \<le> 0"
  shows "written (progress cfg n p base_color progress_color) =
           (if REVERSE cfg then rev (py_range (int n)) else py_range (int n))"
proof -
  have ub: "upper_bar n p \<le> 0" using assms by (rule upper_bar_nonpos)
  have w: "py_int (PFloat (upper_whole n p)) \<le> 0"
    using py_trunc_nonpos(1)[OF ub]
    by (simp add: upper_whole_def modf_def py_trunc_of_int)
  have r: "\<not> 0 < upper_remainder n p"
    using py_trunc_nonpos(2)[OF ub] by (simp add: upper_remainder_def modf_def)
  have A: "progress_pixels cfg n p progress_color = []"
    unfolding progress_pixels_def using w by (simp add: py_range_nonpos del: py_int.simps)
  have B: "tween_pixel cfg n p base_color progress_color = []"
    using r by (simp add: tween_pixel_def)
  have P: "pixels_remaining n p = int n"
    unfolding pixels_remaining_def using w r by (simp add: py_range_nonpos del: py_int.simps)
  have C: "written (base_pixels cfg n p base_color) =
             map (\<lambda>i. if REVERSE cfg then (int n - 1) - i else i) (py_range (int n))"
    unfolding base_pixels_def Let_def P by (simp add: written_set_pixels)
  show ?thesis
    by (simp add: progress_def written_append A B C rev_py_range)
qed

lemma progress_written_upto_100:
  assumes "n < 2 ^ 53" "p \<le> 100"
  shows "set (written (progress cfg n p base_color progress_color)) = {0..<int n}"
proof (cases "0 \<le> p")
  case True
  then show ?thesis using assms by (intro progress_written_set(1))
next
  case False
  then have "p \<le> 0" by simp
  then show ?thesis by (simp add: progress_written_nonpos set_py_range)
qed

lemma written_concat_subset:
  assumes "\<And>x. x \<in> set xs \<Longrightarrow> set (written (f x)) \<subseteq> A"
  shows "set (written (concat (map f xs))) \<subseteq> A"
  using assms by (induction xs) (simp_all add: written_append)

lemma written_replicate_subset:
  assumes "set (written cs) \<subseteq> A"
  shows "set (written (concat (replicate k cs))) \<subseteq> A"
  using assms by (induction k) (simp_all add: written_append)

lemma written_brightness_steps: "written (concat (map (brightness_step d) xs)) = []"
  by (induction xs) (simp_all add: brightness_step_def written_append)

lemma fade_written: "written (fade cfg n color speed) = py_range (int n)"
  by (simp add: fade_def Let_def written_append written_set_pixels written_brightness_steps)

lemma bounce_written_set: "set (written (bounce cfg n color)) \<subseteq> {0..<int n}"
  using chase_written_set[of cfg n color] by (simp add: bounce_def written_append)

lemma progress_while_written_set:
  assumes "LED_COUNT cfg < 2 ^ 53" "limit \<le> 100"
  shows "set (written (progress_while cfg limit b c polls)) \<subseteq> {0..<int (LED_COUNT cfg)}"
  unfolding progress_while_def
proof (rule written_concat_subset)
  fix p assume "p \<in> set (takeWhile (\<lambda>percent. percent < limit) polls)"
  then have "p < limit" by (rule set_takeWhileD[THEN conjunct2])
  then have "p \<le> 100" using assms(2) by simp
  then show "set (written (progress cfg (LED_COUNT cfg) p b c @ [Sleep 2]))
               \<subseteq> {0..<int (LED_COUNT cfg)}"
    using progress_written_upto_100[OF assms(1)] by (simp add: written_append)
qed

lemma loop_calls_written_set:
  assumes "LED_COUNT cfg < 2 ^ 53"
  shows "set (written (loop_calls cfg turns)) \<subseteq> {0..<int (LED_COUNT cfg)}"
  unfolding loop_calls_def
proof (rule written_concat_subset)
  fix t :: turn
  have "set (written (concat (map (printing_calls cfg) (printing_turns t))))
          \<subseteq> {0..<int (LED_COUNT cfg)}"
    by (rule written_concat_subset)
       (simp add: printing_calls_def written_append progress_while_written_set[OF assms])
  moreover have "set (written (concat (replicate k (fade cfg (LED_COUNT cfg) color speed))))
          \<subseteq> {0..<int (LED_COUNT cfg)}" for k color speed
    by (rule written_replicate_subset) (simp add: fade_written set_py_range)
  moreover have "set (written (concat (replicate k (bounce cfg (LED_COUNT cfg) color))))
          \<subseteq> {0..<int (LED_COUNT cfg)}" for k color
    by (rule written_replicate_subset) (rule bounce_written_set)
  ultimately show "set (written (turn_calls cfg t)) \<subseteq> {0..<int (LED_COUNT cfg)}"
    by (simp add: turn_calls_def written_append)
qed

lemma written_take_subset: "set (written (take k cs)) \<subseteq> set (written cs)"
proof -
  have "written cs = written (take k cs) @ written (drop k cs)"
    by (simp flip: written_append)
  then show ?thesis by simp
qed

lemma interrupt_calls_clear:
  assumes "length (pixels s) = n"
  shows "\<exists>s'. driver_calls (interrupt_calls n) s = Some s'
           \<and> pixels s' = replicate n (0, 0, 0)
           \<and> frames s' = frames s @ [(replicate n (0, 0, 0), brightness s)]"
proof -
  let ?cs = "map (\<lambda>i. SetPixelColorRGB i 0 0 0) (py_range (int n))"
  have wcs: "written ?cs = py_range (int n)"
    using written_set_pixels[of "\<lambda>i. i" "(0, 0, 0)" "py_range (int n)"]
    by (simp add: set_pixel_def)
  have wr: "set (written ?cs) = {0..<int (length (pixels s))}"
    by (simp add: wcs set_py_range assms)
  then obtain s1 where s1: "driver_calls ?cs s = Some s1"
    using written_in_range_succeeds[of ?cs s] by auto
  have col: "\<forall>x \<in> set ?cs. \<forall>i r g b. x = SetPixelColorRGB i r g b \<longrightarrow> (r, g, b) = (0, 0, 0)"
    by auto
  have px: "pixels s1 = replicate n (0, 0, 0)"
    using one_colour_all_pixels[OF col s1 wr] assms by simp
  have "\<forall>x \<in> set ?cs. \<exists>i r g b. x = SetPixelColorRGB i r g b" by auto
  from only_pixels_keep[OF this s1]
  have keep: "frames s1 = frames s" "brightness s1 = brightness s" by simp_all
  show ?thesis
    by (simp add: interrupt_calls_def driver_calls_append s1 px keep)
qed

text \<open>
  Claim C8. Whatever the status API answered (\<open>turns\<close>) and wherever in the loop the
  interrupt arrives (after \<open>k\<close> calls to the driver), the handler sets every pixel of
  the strip to \<open>(0, 0, 0)\<close> and flushes once, so the last frame that the run shows
  has all pixels off.
\<close>

theorem interrupt_turns_strip_off:
  assumes "LED_COUNT cfg < 2 ^ 53"
  shows "\<exists>s1 s2. driver_calls (take k (loop_calls cfg turns)) (new_strip cfg) = Some s1
           \<and> driver_calls (interrupt_calls (LED_COUNT cfg)) s1 = Some s2
           \<and> driver_calls (run cfg turns k) (new_strip cfg) = Some s2
           \<and> pixels s2 = replicate (LED_COUNT cfg) (0, 0, 0)
           \<and> frames s2 = frames s1 @ [(replicate (LED_COUNT cfg) (0, 0, 0), brightness s1)]
           \<and> last (frames s2) = (replicate (LED_COUNT cfg) (0, 0, 0), brightness s1)"
proof -
  have "set (written (take k (loop_calls cfg turns))) \<subseteq> {0..<int (LED_COUNT cfg)}"
    using written_take_subset loop_calls_written_set[OF assms] by blast
  then have "\<forall>i \<in> set (written (take k (loop_calls cfg turns))).
               0 \<le> i \<and> i < int (length (pixels (new_strip cfg)))"
    by (auto simp add: new_strip_def)
  then obtain s1 where s1: "driver_calls (take k (loop_calls cfg turns)) (new_strip cfg) = Some s1"
    using written_in_range_succeeds by blast
  have "length (pixels s1) = LED_COUNT cfg"
    using driver_calls_length[OF s1] by (simp add: new_strip_def)
  from interrupt_calls_clear[OF this] obtain s2 where
    s2: "driver_calls (interrupt_calls (LED_COUNT cfg)) s1 = Some s2"
        "pixels s2 = replicate (LED_COUNT cfg) (0, 0, 0)"
        "frames s2 = frames s1 @ [(replicate (LED_COUNT cfg) (0, 0, 0), brightness s1)]"
    by blast
  have "driver_calls (run cfg turns k) (new_strip cfg) = Some s2"
    by (simp add: run_def driver_calls_append s1 s2(1))
  then show ?thesis using s1 s2 by auto
qed

theorem interrupt_turns_strip_off_witness:
  "map_option pixels
     (driver_calls
        (run script_config
           [\<lparr>printing_turns = [\<lparr>bed_polls = [40, 99], extruder_polls = [99], print_polls = [55, 100]\<rparr>],
             standby_polls = 1, paused_polls = 1, error_polls = 0\<rparr>] 17)
        (new_strip script_config))
   = Some (replicate 10 (0, 0, 0))"
proof -
  have "LED_COUNT script_config < 2 ^ 53" by (simp add: script_config_def)
  from interrupt_turns_strip_off[OF this, of 17
      "[\<lparr>printing_turns = [\<lparr>bed_polls = [40, 99], extruder_polls = [99], print_polls = [55, 100]\<rparr>],
             standby_polls = 1, paused_polls = 1, error_polls = 0\<rparr>]"]
  show ?thesis by (auto simp add: script_config_def)
qed

lemma range_down_ends:
  assumes "0 \<le> k"
  shows "range_down k = rev (map (\<lambda>i. 1 + i) (py_range k)) @ [0]"
proof -
  have "py_range (1 + k) = py_range 1 @ map (\<lambda>i. 1 + i) (py_range k)"
    using assms by (intro py_range_split) simp_all
  then show ?thesis by (simp add: range_down_def py_range_1 add.commute)
qed

lemma fade_ends:
  assumes "0 \<le> LED_BRIGHTNESS cfg"
  shows "\<exists>pre d. fade cfg n color speed = pre @ [SetBrightness 0, Show, Sleep d]
           \<and> written pre = py_range (int n)"
proof -
  define d where "d = (if speed = ''slow'' then fl (5 / 100) else fl (5 / 1000))"
  define pre where "pre = map (\<lambda>pixel. set_pixel pixel color) (py_range (int n))
         @ [Show]
         @ concat (map (brightness_step d) (py_range (LED_BRIGHTNESS cfg)))
         @ [Sleep (fl (d * 5))]
         @ concat (map (brightness_step d)
             (rev (map (\<lambda>i. 1 + i) (py_range (LED_BRIGHTNESS cfg)))))"
  have "fade cfg n color speed = pre @ [SetBrightness 0, Show, Sleep d]"
    by (simp add: fade_def Let_def range_down_ends[OF assms] pre_def d_def brightness_step_def)
  moreover have "written pre = py_range (int n)"
    by (simp add: pre_def written_append written_set_pixels written_brightness_steps)
  ultimately show ?thesis by blast
qed

lemma fade_leaves_dark:
  assumes "0 \<le> LED_BRIGHTNESS cfg" "length (pixels s) = n"
  shows "\<exists>s'. driver_calls (fade cfg n color speed) s = Some s'
           \<and> brightness s' = 0 \<and> last (frames s') = (pixels s', 0)"
proof -
  obtain pre d where f: "fade cfg n color speed = pre @ [SetBrightness 0, Show, Sleep d]"
    and w: "written pre = py_range (int n)"
    using fade_ends[OF assms(1)] by blast
  have "\<forall>i \<in> set (written pre). 0 \<le> i \<and> i < int (length (pixels s))"
    by (simp add: w set_py_range assms(2))
  then obtain s1 where s1: "driver_calls pre s = Some s1"
    using written_in_range_succeeds by blast
  show ?thesis by (simp add: f driver_calls_append s1)
qed

lemma chase_no_brightness:
  "\<forall>v. SetBrightness v \<notin> set (concat (map (chase_at n color) (chase_positions n reverse)))"
  by (auto simp add: chase_at_def set_pixel_not_brightness)

lemma chase_shown:
  assumes "length (pixels s) = n"
  shows "\<exists>s' shown. driver_calls (chase cfg n color reverse) s = Some s'
           \<and> frames s' = frames s @ shown
           \<and> map snd shown = replicate (length shown) (LED_BRIGHTNESS cfg)"
proof -
  let ?body = "concat (map (chase_at n color) (chase_positions n reverse))"
  have "\<forall>i \<in> set (written (chase cfg n color reverse)). 0 \<le> i \<and> i < int (length (pixels s))"
    using chase_written_set[of cfg n color reverse] assms by auto
  then obtain s' where s': "driver_calls (chase cfg n color reverse) s = Some s'"
    using written_in_range_succeeds by blast
  then have "driver_calls ?body (s\<lparr>brightness := LED_BRIGHTNESS cfg\<rparr>) = Some s'"
    by (simp add: chase_def)
  from frames_brightness[OF chase_no_brightness this] s' show ?thesis by auto
qed

text \<open>
  Claim C10. With a configured brightness above 0, a call of \<open>fade\<close> runs to its end
  and leaves the global brightness at 0, the last frame it shows being at brightness
  0. \<open>progress\<close> and \<open>chase\<close> both start with \<open>setBrightness(LED_BRIGHTNESS)\<close>, before
  any pixel is written, so every frame that either of them shows after a fade is at
  the configured brightness, never at 0.
\<close>

theorem renders_restore_brightness_after_fade:
  assumes "0 < LED_BRIGHTNESS cfg" "length (pixels s) = n"
    and "n < 2 ^ 53" "0 \<le> p" "p \<le> 100"
  shows "\<exists>s1 s2 s3 shown.
           driver_calls (fade cfg n color speed) s = Some s1
           \<and> brightness s1 = 0 \<and> last (frames s1) = (pixels s1, 0)
           \<and> hd (progress cfg n p base_color progress_color) = SetBrightness (LED_BRIGHTNESS cfg)
           \<and> hd (chase cfg n chase_color reverse) = SetBrightness (LED_BRIGHTNESS cfg)
           \<and> driver_calls (progress cfg n p base_color progress_color) s1 = Some s2
           \<and> frames s2 = frames s1 @ [(pixels s2, LED_BRIGHTNESS cfg)]
           \<and> driver_calls (chase cfg n chase_color reverse) s1 = Some s3
           \<and> frames s3 = frames s1 @ shown
           \<and> map snd shown = replicate (length shown) (LED_BRIGHTNESS cfg)
           \<and> LED_BRIGHTNESS cfg \<noteq> 0"
proof -
  have "0 \<le> LED_BRIGHTNESS cfg" using assms(1) by simp
  from fade_leaves_dark[OF this assms(2)] obtain s1 where
    s1: "driver_calls (fade cfg n color speed) s = Some s1" "brightness s1 = 0"
        "last (frames s1) = (pixels s1, 0)"
    by blast
  have len: "length (pixels s1) = n" using driver_calls_length[OF s1(1)] assms(2) by simp
  obtain s2 where s2: "driver_calls (progress cfg n p base_color progress_color) s1 = Some s2"
    using progress_succeeds[OF assms(3,4,5) len] by blast
  have f2: "frames s2 = frames s1 @ [(pixels s2, LED_BRIGHTNESS cfg)]"
    using s2 by (rule progress_shown(2))
  obtain s3 shown where s3: "driver_calls (chase cfg n chase_color reverse) s1 = Some s3"
    "frames s3 = frames s1 @ shown" "map snd shown = replicate (length shown) (LED_BRIGHTNESS cfg)"
    using chase_shown[OF len] by blast
  have "hd (progress cfg n p base_color progress_color) = SetBrightness (LED_BRIGHTNESS cfg)"
    by (simp add: progress_def)
  moreover have "hd (chase cfg n chase_color reverse) = SetBrightness (LED_BRIGHTNESS cfg)"
    by (simp add: chase_def)
  moreover have "LED_BRIGHTNESS cfg \<noteq> 0" using assms(1) by simp
  ultimately show ?thesis using s1 s2 f2 s3 by blast
qed

theorem renders_restore_brightness_after_fade_witness:
  "driver_calls
     (fade script_config 10 STANDBY_COLOR ''slow''
      @ progress script_config 10 50 HEATING_BASE_COLOR HEATING_PROGRESS_COLOR)
     (new_strip script_config) \<noteq> None
   \<and> hd (chase script_config 10 PAUSED_COLOR False) = SetBrightness 100"
proof -
  have h: "0 < LED_BRIGHTNESS script_config" "length (pixels (new_strip script_config)) = 10"
    "(10::nat) < 2 ^ 53" "(0::int) \<le> 50" "(50::int) \<le> 100"
    by (simp_all add: script_config_def new_strip_def)
  from renders_restore_brightness_after_fade[OF h, of STANDBY_COLOR "''slow''"
         HEATING_BASE_COLOR HEATING_PROGRESS_COLOR PAUSED_COLOR False]
  show ?thesis by (auto simp add: driver_calls_append script_config_def)
qed

section \<open>The sweep of chase\<close>

text \<open>A sequence of calls that writes to every index \<open>i\<close> the colour \<open>f i\<close> only.\<close>

lemma coloured_pixels:
  assumes "\<forall>x \<in> set cs. \<forall>i r g b. x = SetPixelColorRGB i r g b \<longrightarrow> (r, g, b) = f i"
    and "driver_calls cs s = Some s'" and "j < length (pixels s)"
  shows "pixels s' ! j = (if int j \<in> set (written cs) then f (int j) else pixels s ! j)"
  using assms
proof (induction cs arbitrary: s)
  case Nil
  then show ?case by simp
next
  case (Cons x cs)
  obtain s1 where s1: "driver_call x s = Some s1" and rest: "driver_calls cs s1 = Some s'"
    using Cons.prems(2) by (auto split: option.splits)
  have len: "length (pixels s1) = length (pixels s)" using s1 by (rule driver_call_length)
  have ih: "pixels s' ! j = (if int j \<in> set (written cs) then f (int j) else pixels s1 ! j)"
    using Cons.prems rest len by (intro Cons.IH) auto
  show ?case
  proof (cases x)
    case (SetPixelColorRGB i r g b)
    then have col: "(r, g, b) = f i" using Cons.prems(1) by simp
    have ok: "0 \<le> i" "i < int (length (pixels s))"
      "s1 = s\<lparr>pixels := (pixels s)[nat i := (r, g, b)]\<rparr>"
      using s1 SetPixelColorRGB by (auto split: if_splits)
    show ?thesis
      using ih ok col Cons.prems(3) SetPixelColorRGB
      by (auto simp add: nth_list_update)
  qed (use ih s1 in auto)
qed

lemma set_pixel_eq:
  "set_pixel j col = SetPixelColorRGB i r g b \<longleftrightarrow> j = i \<and> col = (r, g, b)"
  by (cases col) (auto simp add: set_pixel_def)

lemma chase_at_calls:
  "chase_at n color i =
     concat (map (\<lambda>pixel. [set_pixel pixel (if i = pixel then color else (0, 0, 0)),
                             Show, Sleep (fl (1 / 100))])
                 (py_range (int n)))"
proof -
  have "(if i = pixel then set_pixel pixel color else SetPixelColorRGB pixel 0 0 0)
        = set_pixel pixel (if i = pixel then color else (0, 0, 0))" for pixel
    by (simp add: set_pixel_def)
  then show ?thesis by (simp add: chase_at_def)
qed

lemma chase_at_no_brightness: "\<forall>v. SetBrightness v \<notin> set (chase_at n color i)"
  by (auto simp add: chase_at_def set_pixel_not_brightness)

lemma chase_at_pixels:
  assumes "length (pixels s) = n"
  shows "\<exists>s'. driver_calls (chase_at n color i) s = Some s'
           \<and> pixels s' = map (\<lambda>pixel. if i = pixel then color else (0, 0, 0)) (py_range (int n))
           \<and> brightness s' = brightness s"
proof -
  let ?f = "\<lambda>pixel. if i = pixel then color else (0, 0, 0)"
  have wr: "set (written (chase_at n color i)) = {0..<int (length (pixels s))}"
    by (simp add: chase_at_written set_py_range assms)
  then obtain s' where s': "driver_calls (chase_at n color i) s = Some s'"
    using written_in_range_succeeds[of "chase_at n color i" s] by auto
  have col: "\<forall>x \<in> set (chase_at n color i). \<forall>j r g b.
          x = SetPixelColorRGB j r g b \<longrightarrow> (r, g, b) = ?f j"
    unfolding chase_at_calls by (auto simp add: set_pixel_eq)
  have len: "length (pixels s') = n" using driver_calls_length[OF s'] assms by simp
  have "pixels s' = map ?f (py_range (int n))"
  proof (rule nth_equalityI)
    show "length (pixels s') = length (map ?f (py_range (int n)))"
      using len by (simp add: length_py_range)
  next
    fix j assume "j < length (pixels s')"
    then have j: "j < n" using len by simp
    then have "pixels s' ! j = ?f (int j)"
      using coloured_pixels[OF col s', of j] wr assms by simp
    then show "pixels s' ! j = map ?f (py_range (int n)) ! j"
      using j by (simp add: py_range_def)
  qed
  moreover have "brightness s' = brightness s"
    using frames_brightness[OF chase_at_no_brightness s'] by simp
  ultimately show ?thesis using s' by simp
qed

lemma one_lit_pixel:
  assumes "0 \<le> i" "i < int n"
  shows "map (\<lambda>pixel. if i = pixel then color else (0, 0, 0)) (py_range (int n))
         = (replicate n (0, 0, 0))[nat i := color]"
proof (rule nth_equalityI)
  show "length (map (\<lambda>pixel. if i = pixel then color else (0, 0, 0)) (py_range (int n)))
        = length ((replicate n (0, 0, 0))[nat i := color])"
    by (simp add: length_py_range)
next
  fix j assume "j < length (map (\<lambda>pixel. if i = pixel then color else (0, 0, 0)) (py_range (int n)))"
  then have j: "j < n" by (simp add: length_py_range)
  then show "map (\<lambda>pixel. if i = pixel then color else (0, 0, 0)) (py_range (int n)) ! j
             = (replicate n (0, 0, 0))[nat i := color] ! j"
    using assms by (auto simp add: py_range_def nth_list_update)
qed

lemma no_lit_pixel:
  "map (\<lambda>pixel. if int n = pixel then color else (0, 0, 0)) (py_range (int n))
   = replicate n (0, 0, 0)"
  by (rule nth_equalityI) (auto simp add: length_py_range py_range_def)

lemma chase_at_last_frame:
  assumes "0 < n" "driver_calls (chase_at n color i) s = Some s'"
  shows "last (frames s') = (pixels s', brightness s')"
proof -
  obtain m where m: "n = Suc m" using assms(1) by (cases n) auto
  define g where "g = (\<lambda>pixel. [set_pixel pixel (if i = pixel then color else (0, 0, 0)),
                             Show, Sleep (fl (1 / 100))])"
  define pre where "pre = concat (map g (py_range (int m)))
             @ [set_pixel (int m) (if i = int m then color else (0, 0, 0))]"
  have eq: "chase_at n color i = pre @ [Show, Sleep (fl (1 / 100))]"
    unfolding chase_at_calls m py_range_Suc by (simp add: g_def pre_def)
  obtain s1 where s1: "driver_calls pre s = Some s1"
    and fin: "driver_calls [Show, Sleep (fl (1 / 100))] s1 = Some s'"
    using assms(2) unfolding eq driver_calls_append by (auto split: option.splits)
  from fin show ?thesis by auto
qed

lemma chase_ends:
  assumes "length (pixels s) = n"
  shows "\<exists>s'. driver_calls (chase cfg n color reverse) s = Some s'
           \<and> pixels s' = map (\<lambda>pixel. if last (chase_positions n reverse) = pixel
                                       then color else (0, 0, 0)) (py_range (int n))"
proof -
  let ?ps = "chase_positions n reverse"
  have ne: "?ps \<noteq> []"
    by (cases reverse) (simp_all add: chase_positions_forward chase_positions_backward)
  then have split: "chase cfg n color reverse =
      (SetBrightness (LED_BRIGHTNESS cfg) # concat (map (chase_at n color) (butlast ?ps)))
      @ chase_at n color (last ?ps)"
  proof -
    have "?ps = butlast ?ps @ [last ?ps]" using ne by simp
    then have "concat (map (chase_at n color) ?ps) =
                 concat (map (chase_at n color) (butlast ?ps)) @ chase_at n color (last ?ps)"
      by (metis concat.simps(1,2) concat_append map_append list.simps(8,9) append_Nil2)
    then show ?thesis by (simp add: chase_def)
  qed
  obtain s' where s': "driver_calls (chase cfg n color reverse) s = Some s'"
    using chase_shown[OF assms] by blast
  then obtain s1 where
    s1: "driver_calls (SetBrightness (LED_BRIGHTNESS cfg)
           # concat (map (chase_at n color) (butlast ?ps))) s = Some s1"
    and fin: "driver_calls (chase_at n color (last ?ps)) s1 = Some s'"
    unfolding split driver_calls_append by (auto split: option.splits)
  have "length (pixels s1) = n" using driver_calls_length[OF s1] assms by simp
  from chase_at_pixels[OF this, of color "last ?ps"] fin s' show ?thesis by auto
qed

text \<open>
  Claim C7. The outer loop of \<open>chase\<close> visits the \<open>n + 1\<close> positions \<open>0, ..., n\<close>,
  ascending when not reversed and descending when reversed. At a position \<open>i\<close> the
  inner loop writes \<open>color\<close> to pixel \<open>i\<close> and \<open>(0, 0, 0)\<close> to every other pixel, so
  after it exactly pixel \<open>i\<close> is lit, and the last frame it shows is that strip. The
  position \<open>n\<close> (the last one, or the first one when reversed) is one past the last
  pixel index: there every write is \<open>(0, 0, 0)\<close> and the whole strip ends off. A
  forward chase therefore ends with the strip off, a reversed one with pixel 0 lit.
\<close>

theorem chase_sweeps_one_past_the_end:
  assumes "length (pixels s) = n"
  shows "chase_positions n False = map int [0..<n + 1]
       \<and> chase_positions n True = rev (map int [0..<n + 1])
       \<and> length (chase_positions n reverse) = n + 1
       \<and> last (chase_positions n False) = int n
       \<and> hd (chase_positions n True) = int n
       \<and> chase cfg n color reverse =
           SetBrightness (LED_BRIGHTNESS cfg)
           # concat (map (chase_at n color) (chase_positions n reverse))
       \<and> chase_at n color (int n) =
           concat (map (\<lambda>pixel. [SetPixelColorRGB pixel 0 0 0, Show, Sleep (fl (1 / 100))])
                       (py_range (int n)))
       \<and> (\<exists>s'. driver_calls (chase_at n color (int n)) s = Some s'
             \<and> pixels s' = replicate n (0, 0, 0))
       \<and> chase_at n color i =
           concat (map (\<lambda>pixel. [set_pixel pixel (if i = pixel then color else (0, 0, 0)),
                                   Show, Sleep (fl (1 / 100))])
                       (py_range (int n)))
       \<and> (\<exists>s'. driver_calls (chase_at n color i) s = Some s'
             \<and> pixels s' =
                 map (\<lambda>pixel. if i = pixel then color else (0, 0, 0)) (py_range (int n))
             \<and> (0 \<le> i \<and> i < int n \<longrightarrow> pixels s' = (replicate n (0, 0, 0))[nat i := color])
             \<and> brightness s' = brightness s
             \<and> (0 < n \<longrightarrow> last (frames s') = (pixels s', brightness s)))
       \<and> (\<exists>s'. driver_calls (chase cfg n color False) s = Some s'
             \<and> pixels s' = replicate n (0, 0, 0))
       \<and> (\<exists>s'. driver_calls (chase cfg n color True) s = Some s'
             \<and> pixels s' =
                 map (\<lambda>pixel. if 0 = pixel then color else (0, 0, 0)) (py_range (int n)))"
proof -
  have 1: "length (chase_positions n reverse) = n + 1"
    by (cases reverse) (simp_all add: chase_positions_forward chase_positions_backward)
  have 2: "last (chase_positions n False) = int n"
    by (simp add: chase_positions_forward)
  have 3: "hd (chase_positions n True) = int n"
    by (simp add: chase_positions_backward hd_rev)
  have 4: "last (chase_positions n True) = 0"
    by (simp add: chase_positions_backward last_rev hd_map upt_rec)
  obtain s' where s': "driver_calls (chase_at n color i) s = Some s'"
    "pixels s' = map (\<lambda>pixel. if i = pixel then color else (0, 0, 0)) (py_range (int n))"
    "brightness s' = brightness s"
    using chase_at_pixels[OF assms] by blast
  have 5: "0 \<le> i \<and> i < int n \<longrightarrow> pixels s' = (replicate n (0, 0, 0))[nat i := color]"
    using s'(2) one_lit_pixel[of i n color] by simp
  have 6: "0 < n \<longrightarrow> last (frames s') = (pixels s', brightness s)"
    using chase_at_last_frame[OF _ s'(1)] s'(3) by simp
  have 7: "\<exists>s'. driver_calls (chase_at n color i) s = Some s'
             \<and> pixels s' =
                 map (\<lambda>pixel. if i = pixel then color else (0, 0, 0)) (py_range (int n))
             \<and> (0 \<le> i \<and> i < int n \<longrightarrow> pixels s' = (replicate n (0, 0, 0))[nat i := color])
             \<and> brightness s' = brightness s
             \<and> (0 < n \<longrightarrow> last (frames s') = (pixels s', brightness s))"
    using s' 5 6 by blast
  have 8: "\<exists>s'. driver_calls (chase cfg n color False) s = Some s'
             \<and> pixels s' = replicate n (0, 0, 0)"
    using chase_ends[OF assms, of cfg color False] by (simp add: 2 no_lit_pixel)
  have 9: "\<exists>s'. driver_calls (chase cfg n color True) s = Some s'
             \<and> pixels s' =
                 map (\<lambda>pixel. if 0 = pixel then color else (0, 0, 0)) (py_range (int n))"
    using chase_ends[OF assms, of cfg color True] by (simp add: 4)
  have 10: "chase cfg n color reverse =
           SetBrightness (LED_BRIGHTNESS cfg)
           # concat (map (chase_at n color) (chase_positions n reverse))"
    by (simp add: chase_def)
  from chase_positions_forward chase_positions_backward 1 2 3 10 chase_at_beyond
    chase_at_beyond_off[OF assms] chase_at_calls 7 8 9
  show ?thesis by blast
qed

theorem chase_sweeps_one_past_the_end_witness:
  "chase_positions 10 False = [0, 1, 2, 3, 4, 5, 6, 7, 8, 9, 10]
   \<and> chase_positions 10 True = [10, 9, 8, 7, 6, 5, 4, 3, 2, 1, 0]
   \<and> driver_calls (chase_at 10 PAUSED_COLOR 10) (new_strip script_config) \<noteq> None
   \<and> map_option pixels (driver_calls (chase_at 10 PAUSED_COLOR 3) (new_strip script_config))
       = Some ((replicate 10 (0, 0, 0))[3 := PAUSED_COLOR])
   \<and> map_option (last \<circ> frames)
         (driver_calls (chase_at 10 PAUSED_COLOR 3) (new_strip script_config))
       = Some ((replicate 10 (0, 0, 0))[3 := PAUSED_COLOR], 100)"
proof -
  have h: "length (pixels (new_strip script_config)) = 10"
    by (simp add: new_strip_def script_config_def)
  note t = chase_sweeps_one_past_the_end[OF h, of False script_config PAUSED_COLOR 3]
  from t have fw: "chase_positions 10 False = map int [0..<10 + 1]"
    by (elim conjE)
  from t have bw: "chase_positions 10 True = rev (map int [0..<10 + 1])"
    by (elim conjE)
  from t have "\<exists>s'. driver_calls (chase_at 10 PAUSED_COLOR (int 10)) (new_strip script_config)
                   = Some s' \<and> pixels s' = replicate 10 (0, 0, 0)"
    by (elim conjE)
  then have off: "driver_calls (chase_at 10 PAUSED_COLOR 10) (new_strip script_config) \<noteq> None"
    by auto
  note e = t[THEN conjunct2, THEN conjunct2, THEN conjunct2, THEN conjunct2, THEN conjunct2,
    THEN conjunct2, THEN conjunct2, THEN conjunct2, THEN conjunct2, THEN conjunct1]
  from e obtain s' where s':
    "driver_calls (chase_at 10 PAUSED_COLOR 3) (new_strip script_config) = Some s'"
    "0 \<le> (3::int) \<and> 3 < int 10 \<longrightarrow> pixels s' = (replicate 10 (0, 0, 0))[nat 3 := PAUSED_COLOR]"
    "0 < (10::nat) \<longrightarrow> last (frames s') = (pixels s', brightness (new_strip script_config))"
    by (elim exE conjE)
  have px: "pixels s' = (replicate 10 (0, 0, 0))[3 := PAUSED_COLOR]"
    using s'(2) by simp
  have fr: "last (frames s') = ((replicate 10 (0, 0, 0))[3 := PAUSED_COLOR], 100)"
    using s'(3) px by (simp add: new_strip_def script_config_def)
  have l1: "map int [0..<10 + 1] = [0, 1, 2, 3, 4, 5, 6, 7, 8, 9, 10]"
    by (simp add: upt_rec)
  show ?thesis
    unfolding fw bw l1 using off s'(1) px fr by simp
qed

end
